theory Spec2Isabelle
  imports Main
begin

section \<open>Filesystem path strings (lib/fs/path.c)\<close>

text \<open>
  A C string is modelled as a HOL \<open>string\<close>: the characters before the terminating
  NUL.  Reading \<open>s[strlen s]\<close> gives the NUL, which is no character of the list, and
  writing a NUL at index \<open>i\<close> of the buffer shortens the string to its first \<open>i\<close>
  characters.  A nullable pointer is an \<open>option\<close>.  The two builds of the file
  (\<open>#ifdef _WIN32\<close> and the other one) are told apart by a \<open>platform\<close> argument.
\<close>

datatype platform = Win32 | Posix

abbreviation DQUOTE :: char where
  "DQUOTE \<equiv> CHR 0x22"

abbreviation BSLASH :: char where
  "BSLASH \<equiv> CHR 0x5C"

abbreviation SLASH :: char where
  "SLASH \<equiv> CHR 0x2F"

abbreviation STAR :: char where
  "STAR \<equiv> CHR 0x2A"

abbreviation QMARK :: char where
  "QMARK \<equiv> CHR 0x3F"

abbreviation COLON :: char where
  "COLON \<equiv> CHR 0x3A"

text \<open>\<open>PATH_SEPARATOR\<close> is declared outside this file; it is the one-character string
  of the backslash in the Windows build and of the slash elsewhere.\<close>

definition PATH_SEPARATOR :: "platform \<Rightarrow> string" where
  "PATH_SEPARATOR plat = (case plat of Win32 \<Rightarrow> [BSLASH] | Posix \<Rightarrow> [SLASH])"

subsection \<open>\<open>get_unquoted_path\<close>\<close>

text \<open>
  The function returns a fresh string or \<open>NULL\<close>.  The loop writes through the pointer
  \<open>s\<close> into the output buffer; \<open>out\<close> is what has been written so far, so \<open>*s++ = c\<close>
  appends and \<open>*(s-1) = c\<close> overwrites the last character written.  A write before
  the start of the buffer is the outcome \<open>WriteBeforeBuffer\<close>, kept apart from the
  \<open>NULL\<close> return.
\<close>

datatype unquote_failure = ReturnsNull | WriteBeforeBuffer

function unquote_loop :: "string \<Rightarrow> nat \<Rightarrow> nat \<Rightarrow> string \<Rightarrow> unquote_failure + string" where
  "unquote_loop path n i out =
     (if i < n then
        (if path ! i = DQUOTE \<and> (i > 0 \<and> path ! (i - 1) = BSLASH) then
           (if out = [] then Inl WriteBeforeBuffer
            else unquote_loop path n (i + 1) (butlast out @ [path ! i]))
         else if path ! i \<noteq> DQUOTE then
           unquote_loop path n (i + 1) (out @ [path ! i])
         else Inl ReturnsNull)
      else Inr out)"
  by pat_completeness auto
termination
  by (relation "measure (\<lambda>(path, n, i, out). n - i)") auto

declare unquote_loop.simps [simp del]

definition get_unquoted_path :: "string \<Rightarrow> unquote_failure + string" where
  "get_unquoted_path path =
     (let len = length path in
      if len = 0 then Inr []
      else
        let has_start_quote = (path ! 0 = DQUOTE);
            has_end_quote = (len > 0 \<and> path ! (len - 1) = DQUOTE)
        in if has_start_quote \<noteq> has_end_quote \<or> (len = 1 \<and> has_start_quote)
           then Inl ReturnsNull
           else unquote_loop path (len - of_bool has_end_quote)
                  (of_bool has_start_quote) [])"

text \<open>
  The specification's reading of the same function, for comparison: the interior of the
  string is what lies between the enclosing quotes when they are present and the whole
  string otherwise; an interior quote is bare when no backslash stands immediately
  before it; unescaping replaces each pair of a backslash and a quote by the quote.
\<close>

definition interior_spec :: "string \<Rightarrow> string" where
  "interior_spec path = (if path \<noteq> [] \<and> hd path = DQUOTE then butlast (tl path) else path)"

definition bare_quote_at_spec :: "string \<Rightarrow> nat \<Rightarrow> bool" where
  "bare_quote_at_spec xs j = (xs ! j = DQUOTE \<and> (j = 0 \<or> xs ! (j - 1) \<noteq> BSLASH))"

fun unescape_quotes_spec :: "string \<Rightarrow> string" where
  "unescape_quotes_spec (a # b # xs) =
     (if a = BSLASH \<and> b = DQUOTE then DQUOTE # unescape_quotes_spec xs
      else a # unescape_quotes_spec (b # xs))"
| "unescape_quotes_spec xs = xs"

definition malformed_quoting_spec :: "string \<Rightarrow> bool" where
  "malformed_quoting_spec path =
     (path \<noteq> [] \<and>
      ((hd path = DQUOTE) \<noteq> (last path = DQUOTE) \<or> path = [DQUOTE] \<or>
       (\<exists>j \<in> {0 ..< length (interior_spec path)}. bare_quote_at_spec (interior_spec path) j)))"

subsection \<open>\<open>path_is_relative\<close>\<close>

text \<open>Modelled from the spec: \<open>TOR_ISALPHA\<close> is a macro of lib/string/compat_ctype.h,
  which is not part of the sources at hand; the specification calls its argument a
  letter, so it is taken to hold of the ASCII letters.\<close>

definition TOR_ISALPHA :: "char \<Rightarrow> bool" where
  "TOR_ISALPHA c =
     (let k = (of_char c :: nat) in (65 \<le> k \<and> k \<le> 90) \<or> (97 \<le> k \<and> k \<le> 122))"

text \<open>The argument may be a null pointer; the result is the C truth value as a bool.\<close>

definition path_is_relative :: "platform \<Rightarrow> string option \<Rightarrow> bool" where
  "path_is_relative plat filename =
     (case filename of
        None \<Rightarrow> True
      | Some f \<Rightarrow>
          if f \<noteq> [] \<and> f ! 0 = SLASH then False
          else if plat = Win32 \<and> f \<noteq> [] \<and> f ! 0 = BSLASH then False
          else if plat = Win32 \<and> length f > 3 \<and> TOR_ISALPHA (f ! 0) \<and>
                  f ! 1 = COLON \<and> f ! 2 = BSLASH then False
          else True)"

subsection \<open>\<open>clean_fname_for_stat\<close>\<close>

text \<open>The buffer is changed in place; the model returns the string it holds afterwards.\<close>

definition clean_fname_for_stat :: "platform \<Rightarrow> string \<Rightarrow> string" where
  "clean_fname_for_stat plat name =
     (case plat of
        Posix \<Rightarrow> name
      | Win32 \<Rightarrow>
          (let len = length name in
           if len = 0 then name
           else if name ! (len - 1) = BSLASH \<or> name ! (len - 1) = SLASH then
             (if len = 1 \<or> (len = 3 \<and> name ! 1 = COLON) then name
              else take (len - 1) name)
           else name))"

subsection \<open>\<open>get_parent_directory\<close>\<close>

definition is_sep :: "platform \<Rightarrow> char \<Rightarrow> bool" where
  "is_sep plat c = (c = SLASH \<or> (plat = Win32 \<and> c = BSLASH))"

text \<open>
  The loop \<open>while (--cp >= fname)\<close> walks the index \<open>cp\<close> from the last character down
  to 0; the second argument of \<open>parent_loop\<close> is the number of characters not yet
  visited, so the body runs at index \<open>cp\<close> for the argument \<open>Suc cp\<close>.  The result is
  the return value together with the string left in the buffer.
\<close>

fun parent_loop :: "platform \<Rightarrow> string \<Rightarrow> nat \<Rightarrow> bool \<Rightarrow> int \<times> string" where
  "parent_loop plat fname 0 at_end = (- 1, fname)"
| "parent_loop plat fname (Suc cp) at_end =
     (if is_sep plat (fname ! cp) then
        (if cp = 0 then (0, take 1 fname)
         else if \<not> at_end then (0, take cp fname)
         else parent_loop plat (take cp fname) cp at_end)
      else parent_loop plat fname cp False)"

text \<open>In the Windows build a leading \<open>c:\<close> is skipped (\<open>fname += 2\<close>); it stays in the
  buffer in front of what the loop leaves.\<close>

definition drive_len :: "platform \<Rightarrow> string \<Rightarrow> nat" where
  "drive_len plat fname =
     (if plat = Win32 \<and> fname \<noteq> [] \<and> length fname \<ge> 2 \<and> fname ! 1 = COLON then 2 else 0)"

definition get_parent_directory :: "platform \<Rightarrow> string \<Rightarrow> int \<times> string" where
  "get_parent_directory plat fname =
     (let k = drive_len plat fname;
          rest = drop k fname
      in case parent_loop plat rest (length rest) True of
           (rc, rest') \<Rightarrow> (rc, take k fname @ rest'))"

subsection \<open>\<open>IS_GLOB_CHAR\<close> and \<open>has_glob\<close>\<close>

definition IS_GLOB_CHAR :: "platform \<Rightarrow> string \<Rightarrow> nat \<Rightarrow> bool" where
  "IS_GLOB_CHAR plat s i =
     (case plat of
        Win32 \<Rightarrow> (s ! i = STAR \<or> s ! i = QMARK)
      | Posix \<Rightarrow> ((s ! i = STAR \<or> s ! i = QMARK) \<and> (i = 0 \<or> s ! (i - 1) \<noteq> BSLASH)))"

function has_glob_loop :: "platform \<Rightarrow> string \<Rightarrow> nat \<Rightarrow> bool" where
  "has_glob_loop plat s i =
     (if i < length s then
        (if IS_GLOB_CHAR plat s i then True else has_glob_loop plat s (i + 1))
      else False)"
  by pat_completeness auto
termination
  by (relation "measure (\<lambda>(plat, s, i). length s - i)") auto

declare has_glob_loop.simps [simp del]

definition has_glob :: "platform \<Rightarrow> string \<Rightarrow> bool" where
  "has_glob plat s = has_glob_loop plat s 0"

subsection \<open>The collaborators of the glob functions\<close>

text \<open>Modelled from the spec: \<open>file_status_t\<close> is declared in lib/fs/files.h, which is
  not part of the sources at hand.  The code names \<open>FN_ERROR\<close> and \<open>FN_NOENT\<close>; the
  specification lists the tags Error, NotExist, File, Directory and Other.\<close>

datatype file_status_t = FN_ERROR | FN_NOENT | FN_FILE | FN_DIR | FN_OTHER

text \<open>
  What the manual backend calls and this file does not define: \<open>file_status\<close>,
  \<open>tor_listdir\<close> (a null pointer on failure), the predicates \<open>is_file\<close> and \<open>is_dir\<close> on
  status tags, and the Windows matcher \<open>PathMatchSpec\<close>.  They are parameters of the
  model.  The filesystem does not change during a call.
\<close>

record fs_env =
  file_status :: "string \<Rightarrow> file_status_t"
  tor_listdir :: "string \<Rightarrow> string list option"
  is_file :: "file_status_t \<Rightarrow> bool"
  is_dir :: "file_status_t \<Rightarrow> bool"
  PathMatchSpec :: "string \<Rightarrow> string \<Rightarrow> bool"

text \<open>
  The native backend calls \<open>glob\<close> of the C library with fixed flags; its outcome for a
  pattern is the return code and the vector \<open>gl_pathv\<close> (\<open>gl_pathc\<close> is its length).
  \<open>GLOB_NOMATCH\<close> is a constant of the system header.
\<close>

record glob_env =
  GLOB_NOMATCH :: int
  glob :: "string \<Rightarrow> int \<times> string list"

subsection \<open>\<open>unglob_win32\<close>\<close>

text \<open>The body of the loop over \<open>filenames\<close>; \<open>results\<close> is the list being filled.\<close>

fun unglob_foreach ::
  "fs_env \<Rightarrow> string \<Rightarrow> int \<Rightarrow> string \<Rightarrow> string list \<Rightarrow> string list \<Rightarrow> string list" where
  "unglob_foreach env pattern curr_sep path_until_glob [] results = results"
| "unglob_foreach env pattern curr_sep path_until_glob (filename # filenames) results =
     (let full_path = path_until_glob @ PATH_SEPARATOR Win32 @ filename;
          path_curr_glob = take (nat (curr_sep + 1)) pattern;
          path_curr_glob = (if is_dir env (file_status env full_path)
                            then clean_fname_for_stat Win32 path_curr_glob
                            else path_curr_glob)
      in if PathMatchSpec env full_path path_curr_glob
         then unglob_foreach env pattern curr_sep path_until_glob filenames
                (results @ [full_path])
         else unglob_foreach env pattern curr_sep path_until_glob filenames results)"

definition unglob_win32 :: "fs_env \<Rightarrow> string \<Rightarrow> int \<Rightarrow> int \<Rightarrow> string list option" where
  "unglob_win32 env pattern prev_sep curr_sep =
     (let len = (if prev_sep < 1 then prev_sep + 1 else prev_sep);
          path_until_glob = take (nat len) pattern
      in if \<not> is_file env (file_status env path_until_glob) then
           (case tor_listdir env path_until_glob of
              None \<Rightarrow> None
            | Some filenames \<Rightarrow>
                Some (unglob_foreach env pattern curr_sep path_until_glob filenames []))
         else Some [])"

subsection \<open>\<open>add_non_glob_path\<close>\<close>

text \<open>The result is the returned flag and the list \<open>results\<close> after the call.\<close>

definition add_non_glob_path ::
  "platform \<Rightarrow> fs_env \<Rightarrow> string \<Rightarrow> string list \<Rightarrow> bool \<times> string list" where
  "add_non_glob_path plat env path results =
     (let file_type = file_status env path in
      if file_type = FN_ERROR then (False, results)
      else if file_type \<noteq> FN_NOENT then
        (True, results @ [clean_fname_for_stat plat path])
      else (True, results))"

subsection \<open>\<open>tor_glob_win32\<close>\<close>

text \<open>
  The first loop of \<open>tor_glob_win32\<close>, which looks for the first path fragment with
  globs.  Its state is \<open>i\<close>, \<open>is_glob\<close>, \<open>prev_sep\<close> and \<open>curr_sep\<close>; the result is the
  last three when the loop is left, by \<open>break\<close> or at the end of the pattern.
\<close>

function glob_fragment_loop ::
  "string \<Rightarrow> nat \<Rightarrow> bool \<Rightarrow> int \<Rightarrow> int \<Rightarrow> bool \<times> int \<times> int" where
  "glob_fragment_loop pattern i is_glob prev_sep curr_sep =
     (if i < length pattern then
        (let is_glob = (is_glob \<or> IS_GLOB_CHAR Win32 pattern i);
             is_last = (i + 1 = length pattern);
             is_sep = (pattern ! i = hd (PATH_SEPARATOR Win32) \<or> pattern ! i = SLASH)
         in if is_sep \<or> is_last then
              (if is_glob then (is_glob, curr_sep, int i)
               else glob_fragment_loop pattern (i + 1) is_glob curr_sep (int i))
            else glob_fragment_loop pattern (i + 1) is_glob prev_sep curr_sep)
      else (is_glob, prev_sep, curr_sep))"
  by pat_completeness auto
termination
  by (relation "measure (\<lambda>(pattern, i, is_glob, prev_sep, curr_sep). length pattern - i)")
    auto

declare glob_fragment_loop.simps [simp del]

text \<open>
  The function calls itself on paths built from directory entries, and nothing in the
  code bounds the depth, so the model carries fuel: \<open>OutOfFuel\<close> stands for a call that
  has not returned within the given depth, \<open>Returns None\<close> for the null pointer and
  \<open>Returns (Some l)\<close> for the list \<open>l\<close>.
\<close>

datatype 'a fuelled = OutOfFuel | Returns 'a

text \<open>
  The loop over \<open>unglobbed_paths\<close>.  \<open>recurse\<close> is the recursive call, \<open>rest\<close> is
  \<open>&pattern[curr_sep+1]\<close>; the state is \<open>error_found\<close> and \<open>results\<close>.
\<close>

fun glob_foreach ::
  "(string \<Rightarrow> string list option fuelled) \<Rightarrow> string \<Rightarrow> string list \<Rightarrow> string list \<Rightarrow>
   (bool \<times> string list) fuelled" where
  "glob_foreach recurse rest [] results = Returns (False, results)"
| "glob_foreach recurse rest (current_path # paths) results =
     (let next_path = current_path @ PATH_SEPARATOR Win32 @ rest in
      case recurse next_path of
        OutOfFuel \<Rightarrow> OutOfFuel
      | Returns None \<Rightarrow> Returns (True, results)
      | Returns (Some opened_next) \<Rightarrow>
          glob_foreach recurse rest paths (results @ opened_next))"

primrec tor_glob_win32 :: "nat \<Rightarrow> fs_env \<Rightarrow> string \<Rightarrow> string list option fuelled" where
  "tor_glob_win32 0 env pattern = OutOfFuel"
| "tor_glob_win32 (Suc fuel) env pattern =
     (case glob_fragment_loop pattern 0 False (- 1) (- 1) of
        (is_glob, prev_sep, curr_sep) \<Rightarrow>
          if \<not> is_glob then
            (case add_non_glob_path Win32 env pattern [] of
               (ok, results) \<Rightarrow> Returns (if \<not> ok then None else Some results))
          else
            (case unglob_win32 env pattern prev_sep curr_sep of
               None \<Rightarrow> Returns None
             | Some unglobbed_paths \<Rightarrow>
                 (case glob_foreach (tor_glob_win32 fuel env)
                         (drop (nat (curr_sep + 1)) pattern) unglobbed_paths [] of
                    OutOfFuel \<Rightarrow> OutOfFuel
                  | Returns (error_found, results) \<Rightarrow>
                      Returns (if error_found then None else Some results))))"

subsection \<open>\<open>tor_glob\<close>\<close>

text \<open>\<open>tor_strreplacechar\<close> is defined in lib/string/util_string.c, outside the sources
  at hand; by the comment at its call it changes each forward slash to a backslash.\<close>

definition tor_strreplacechar :: "string \<Rightarrow> char \<Rightarrow> char \<Rightarrow> string" where
  "tor_strreplacechar s c_find c_replacement =
     map (\<lambda>c. if c = c_find then c_replacement else c) s"

text \<open>The Windows build of \<open>tor_glob\<close>.\<close>

definition tor_glob_windows :: "nat \<Rightarrow> fs_env \<Rightarrow> string \<Rightarrow> string list option fuelled" where
  "tor_glob_windows fuel env pattern =
     (let pattern_normalized = tor_strreplacechar pattern SLASH (hd (PATH_SEPARATOR Win32))
      in tor_glob_win32 fuel env pattern_normalized)"

text \<open>The other build of \<open>tor_glob\<close>: the body of its loop over the matches, and the
  function.\<close>

definition strip_match :: "string \<Rightarrow> string" where
  "strip_match match =
     (let len = length match in
      if len > 0 \<and> match ! (len - 1) = hd (PATH_SEPARATOR Posix)
      then take (len - 1) match else match)"

definition tor_glob_native :: "glob_env \<Rightarrow> string \<Rightarrow> string list option" where
  "tor_glob_native genv pattern =
     (case glob genv pattern of
        (ret, gl_pathv) \<Rightarrow>
          if ret = GLOB_NOMATCH genv then Some []
          else if ret \<noteq> 0 then None
          else Some (map strip_match gl_pathv))"

subsection \<open>The manual backend with the trace of its collaborator calls\<close>

text \<open>
  The same functions once more, now returning beside their result the calls to
  \<open>file_status\<close> and \<open>tor_listdir\<close> that they make, in the order in which they make
  them.  A call is recorded with its argument and its place in the code:
  \<open>Status_prefix\<close> is \<open>file_status(path_until_glob)\<close> and \<open>Status_entry\<close> is
  \<open>file_status(full_path)\<close>, both in \<open>unglob_win32\<close>; \<open>Status_path\<close> is
  \<open>file_status(path)\<close> in \<open>add_non_glob_path\<close>; \<open>Listdir\<close> is
  \<open>tor_listdir(path_until_glob)\<close>.
\<close>

datatype fs_call =
  Status_prefix string | Listdir string | Status_entry string | Status_path string

fun unglob_foreach_io ::
  "fs_env \<Rightarrow> string \<Rightarrow> int \<Rightarrow> string \<Rightarrow> string list \<Rightarrow> string list \<Rightarrow>
   string list \<times> fs_call list" where
  "unglob_foreach_io env pattern curr_sep path_until_glob [] results = (results, [])"
| "unglob_foreach_io env pattern curr_sep path_until_glob (filename # filenames) results =
     (let full_path = path_until_glob @ PATH_SEPARATOR Win32 @ filename;
          path_curr_glob = take (nat (curr_sep + 1)) pattern;
          path_curr_glob = (if is_dir env (file_status env full_path)
                            then clean_fname_for_stat Win32 path_curr_glob
                            else path_curr_glob);
          (results, calls) =
            (if PathMatchSpec env full_path path_curr_glob
             then unglob_foreach_io env pattern curr_sep path_until_glob filenames
                    (results @ [full_path])
             else unglob_foreach_io env pattern curr_sep path_until_glob filenames results)
      in (results, Status_entry full_path # calls))"

definition unglob_win32_io ::
  "fs_env \<Rightarrow> string \<Rightarrow> int \<Rightarrow> int \<Rightarrow> string list option \<times> fs_call list" where
  "unglob_win32_io env pattern prev_sep curr_sep =
     (let len = (if prev_sep < 1 then prev_sep + 1 else prev_sep);
          path_until_glob = take (nat len) pattern
      in if \<not> is_file env (file_status env path_until_glob) then
           (case tor_listdir env path_until_glob of
              None \<Rightarrow> (None, [Status_prefix path_until_glob, Listdir path_until_glob])
            | Some filenames \<Rightarrow>
                (case unglob_foreach_io env pattern curr_sep path_until_glob filenames [] of
                   (results, calls) \<Rightarrow>
                     (Some results,
                      [Status_prefix path_until_glob, Listdir path_until_glob] @ calls)))
         else (Some [], [Status_prefix path_until_glob]))"

definition add_non_glob_path_io ::
  "platform \<Rightarrow> fs_env \<Rightarrow> string \<Rightarrow> string list \<Rightarrow> (bool \<times> string list) \<times> fs_call list" where
  "add_non_glob_path_io plat env path results =
     (let file_type = file_status env path in
      if file_type = FN_ERROR then ((False, results), [Status_path path])
      else if file_type \<noteq> FN_NOENT then
        ((True, results @ [clean_fname_for_stat plat path]), [Status_path path])
      else ((True, results), [Status_path path]))"

fun glob_foreach_io ::
  "(string \<Rightarrow> string list option fuelled \<times> fs_call list) \<Rightarrow> string \<Rightarrow> string list \<Rightarrow>
   string list \<Rightarrow> (bool \<times> string list) fuelled \<times> fs_call list" where
  "glob_foreach_io recurse rest [] results = (Returns (False, results), [])"
| "glob_foreach_io recurse rest (current_path # paths) results =
     (let next_path = current_path @ PATH_SEPARATOR Win32 @ rest in
      case recurse next_path of
        (OutOfFuel, calls) \<Rightarrow> (OutOfFuel, calls)
      | (Returns None, calls) \<Rightarrow> (Returns (True, results), calls)
      | (Returns (Some opened_next), calls) \<Rightarrow>
          (case glob_foreach_io recurse rest paths (results @ opened_next) of
             (outcome, more_calls) \<Rightarrow> (outcome, calls @ more_calls)))"

primrec tor_glob_win32_io ::
  "nat \<Rightarrow> fs_env \<Rightarrow> string \<Rightarrow> string list option fuelled \<times> fs_call list" where
  "tor_glob_win32_io 0 env pattern = (OutOfFuel, [])"
| "tor_glob_win32_io (Suc fuel) env pattern =
     (case glob_fragment_loop pattern 0 False (- 1) (- 1) of
        (is_glob, prev_sep, curr_sep) \<Rightarrow>
          if \<not> is_glob then
            (case add_non_glob_path_io Win32 env pattern [] of
               ((ok, results), calls) \<Rightarrow>
                 (Returns (if \<not> ok then None else Some results), calls))
          else
            (case unglob_win32_io env pattern prev_sep curr_sep of
               (None, calls) \<Rightarrow> (Returns None, calls)
             | (Some unglobbed_paths, calls) \<Rightarrow>
                 (case glob_foreach_io (tor_glob_win32_io fuel env)
                         (drop (nat (curr_sep + 1)) pattern) unglobbed_paths [] of
                    (OutOfFuel, more_calls) \<Rightarrow> (OutOfFuel, calls @ more_calls)
                  | (Returns (error_found, results), more_calls) \<Rightarrow>
                      (Returns (if error_found then None else Some results),
                       calls @ more_calls))))"

definition tor_glob_windows_io ::
  "nat \<Rightarrow> fs_env \<Rightarrow> string \<Rightarrow> string list option fuelled \<times> fs_call list" where
  "tor_glob_windows_io fuel env pattern =
     (let pattern_normalized = tor_strreplacechar pattern SLASH (hd (PATH_SEPARATOR Win32))
      in tor_glob_win32_io fuel env pattern_normalized)"

text \<open>For a trace: the paths whose status \<open>add_non_glob_path\<close> asked for, in order;
  whether a call on which the code acts as on a failure is among the calls, that is
  a \<open>tor_listdir\<close> that returned the null pointer or a status query of
  \<open>add_non_glob_path\<close> that answered \<open>FN_ERROR\<close>.\<close>

fun status_paths :: "fs_call list \<Rightarrow> string list" where
  "status_paths [] = []"
| "status_paths (Status_path p # calls) = p # status_paths calls"
| "status_paths (c # calls) = status_paths calls"

fun failed_call :: "fs_env \<Rightarrow> fs_call \<Rightarrow> bool" where
  "failed_call env (Listdir p) = (tor_listdir env p = None)"
| "failed_call env (Status_path p) = (file_status env p = FN_ERROR)"
| "failed_call env c = False"

text \<open>The paths that a trace found to exist, each cleaned as \<open>add_non_glob_path\<close>
  cleans it.\<close>

definition found_paths :: "fs_env \<Rightarrow> fs_call list \<Rightarrow> string list" where
  "found_paths env calls =
     map (clean_fname_for_stat Win32)
       (filter (\<lambda>p. file_status env p \<noteq> FN_ERROR \<and> file_status env p \<noteq> FN_NOENT)
          (status_paths calls))"

subsection \<open>Reading the result of a recursive call\<close>

text \<open>The list that \<open>smartlist_add_all\<close> appends for a recursive call that returned a
  list; used to state what a successful expansion is made of.\<close>

definition sub_matches :: "string list option fuelled \<Rightarrow> string list" where
  "sub_matches x = (case x of Returns (Some r) \<Rightarrow> r | _ \<Rightarrow> [])"

subsection \<open>A bound on the depth of the recursion\<close>

text \<open>The number of metacharacters of a pattern.  Each recursive call of
  \<open>tor_glob_win32\<close> is on a pattern with fewer of them, as long as no directory entry
  holds one, so this number bounds the fuel that a call needs.\<close>

definition glob_count :: "string \<Rightarrow> nat" where
  "glob_count s = length (filter (\<lambda>c. c = STAR \<or> c = QMARK) s)"

subsection \<open>An example filesystem\<close>

text \<open>
  A small Windows filesystem on which the theorems about the manual backend are
  instantiated: the directory \<open>d\<close> holds the directories \<open>x\<close> and \<open>y\<close>; \<open>x\<close> holds the
  file \<open>f\<close>; \<open>y\<close> cannot be listed; nothing else exists.  As \<open>file_status\<close> of
  lib/fs/files.c does, the status query cleans its argument with
  \<open>clean_fname_for_stat\<close> first.  The matcher knows \<open>*\<close> and \<open>?\<close>.
\<close>

fun wild_match :: "string \<Rightarrow> string \<Rightarrow> bool" where
  "wild_match [] [] = True"
| "wild_match [] (c # cs) = False"
| "wild_match (p # ps) [] = (p = STAR \<and> wild_match ps [])"
| "wild_match (p # ps) (c # cs) =
     (if p = STAR then wild_match ps (c # cs) \<or> wild_match (p # ps) cs
      else (p = QMARK \<or> p = c) \<and> wild_match ps cs)"

definition example_status :: "string \<Rightarrow> file_status_t" where
  "example_status path =
     (let f = clean_fname_for_stat Win32 path in
      if f = [] then FN_ERROR
      else if f = ''d'' \<or> f = ''d'' @ [BSLASH] @ ''x'' \<or> f = ''d'' @ [BSLASH] @ ''y'' then FN_DIR
      else if f = ''d'' @ [BSLASH] @ ''x'' @ [BSLASH] @ ''f'' then FN_FILE
      else FN_NOENT)"

definition example_listdir :: "string \<Rightarrow> string list option" where
  "example_listdir path =
     (if path = ''d'' then Some [''x'', ''y'']
      else if path = ''d'' @ [BSLASH] @ ''x'' then Some [''f'']
      else None)"

definition example_fs :: fs_env where
  "example_fs =
     \<lparr> file_status = example_status,
       tor_listdir = example_listdir,
       is_file = (\<lambda>st. st = FN_FILE \<or> st = FN_OTHER),
       is_dir = (\<lambda>st. st = FN_DIR),
       PathMatchSpec = (\<lambda>file spec. wild_match spec file) \<rparr>"



text \<open>A glob facility that reports one match ending in two separators, one that
  reports no match and one that fails; \<open>GLOB_NOMATCH\<close> is 3 and the failure code 2, as
  in the GNU C library.\<close>

definition example_glob_match :: glob_env where
  "example_glob_match = \<lparr> GLOB_NOMATCH = 3, glob = (\<lambda>pattern. (0, [''a//'', ''b/'', ''c''])) \<rparr>"

definition example_glob_nomatch :: glob_env where
  "example_glob_nomatch = \<lparr> GLOB_NOMATCH = 3, glob = (\<lambda>pattern. (3, [])) \<rparr>"

definition example_glob_aborted :: glob_env where
  "example_glob_aborted = \<lparr> GLOB_NOMATCH = 3, glob = (\<lambda>pattern. (2, [])) \<rparr>"

subsection \<open>Proof-only view of the unquoting loop as a list recursion\<close>

fun unquote_list :: "bool \<Rightarrow> string \<Rightarrow> string \<Rightarrow> unquote_failure + string" where
  "unquote_list pb [] out = Inr out"
| "unquote_list pb (c # cs) out =
     (if c = DQUOTE \<and> pb then
        (if out = [] then Inl WriteBeforeBuffer
         else unquote_list False cs (butlast out @ [c]))
      else if c \<noteq> DQUOTE then unquote_list (c = BSLASH) cs (out @ [c])
      else Inl ReturnsNull)"

fun bare_list :: "bool \<Rightarrow> string \<Rightarrow> bool" where
  "bare_list pb [] = False"
| "bare_list pb (c # cs) =
     (if c = DQUOTE then (\<not> pb \<or> bare_list False cs) else bare_list (c = BSLASH) cs)"

section \<open>Properties of \<open>get_unquoted_path\<close>\<close>

lemma unquote_loop_list:
  "i \<le> n \<Longrightarrow> n \<le> length path \<Longrightarrow>
   unquote_loop path n i out =
     unquote_list (i > 0 \<and> path ! (i - 1) = BSLASH) (drop i (take n path)) out"
proof (induction path n i out rule: unquote_loop.induct)
  case (1 path n i out)
  show ?case
  proof (cases "i < n")
    case False
    with "1.prems" show ?thesis by (simp add: unquote_loop.simps)
  next
    case True
    with "1.prems" have "i < length (take n path)" by simp
    from Cons_nth_drop_Suc [OF this] True
    have d: "drop i (take n path) = path ! i # drop (Suc i) (take n path)" by simp
    from True "1.prems" have le: "i + 1 \<le> n" by simp
    show ?thesis
      using True "1.IH"(1) [OF True _ _ le "1.prems"(2)] "1.IH"(2) [OF True _ _ le "1.prems"(2)]
      by (subst unquote_loop.simps) (auto simp: d)
  qed
qed

lemma bare_list_iff:
  "bare_list pb cs \<longleftrightarrow>
     (\<exists>j<length cs. cs ! j = DQUOTE \<and> (if j = 0 then \<not> pb else cs ! (j - 1) \<noteq> BSLASH))"
proof (induction cs arbitrary: pb)
  case Nil
  show ?case by simp
next
  case (Cons c cs)
  have ex_Suc: "(\<exists>j<Suc n. P j) \<longleftrightarrow> (P 0 \<or> (\<exists>j<n. P (Suc j)))" for P n
    by (metis less_Suc_eq_0_disj)
  have shift: "(x # cs) ! j \<noteq> BSLASH \<longleftrightarrow> (if j = 0 then x \<noteq> BSLASH else cs ! (j - 1) \<noteq> BSLASH)"
    for j x by (cases j) simp_all
  show ?case
  proof (cases "c = DQUOTE")
    case True
    have "bare_list pb (c # cs) \<longleftrightarrow> \<not> pb \<or> bare_list False cs"
      using True by simp
    also have "\<dots> \<longleftrightarrow> \<not> pb \<or>
       (\<exists>j<length cs. cs ! j = DQUOTE \<and> (if j = 0 then c \<noteq> BSLASH else cs ! (j - 1) \<noteq> BSLASH))"
      using True by (simp add: Cons.IH [of False])
    also have "\<dots> \<longleftrightarrow> (\<exists>j<Suc (length cs). (c # cs) ! j = DQUOTE \<and>
         (if j = 0 then \<not> pb else (c # cs) ! (j - 1) \<noteq> BSLASH))"
      unfolding ex_Suc using True by (simp add: shift)
    finally show ?thesis by simp
  next
    case False
    have "bare_list pb (c # cs) \<longleftrightarrow> bare_list (c = BSLASH) cs"
      using False by simp
    also have "\<dots> \<longleftrightarrow>
       (\<exists>j<length cs. cs ! j = DQUOTE \<and> (if j = 0 then c \<noteq> BSLASH else cs ! (j - 1) \<noteq> BSLASH))"
      by (simp add: Cons.IH [of "c = BSLASH"])
    also have "\<dots> \<longleftrightarrow> (\<exists>j<Suc (length cs). (c # cs) ! j = DQUOTE \<and>
         (if j = 0 then \<not> pb else (c # cs) ! (j - 1) \<noteq> BSLASH))"
      unfolding ex_Suc using False by (simp add: shift)
    finally show ?thesis by simp
  qed
qed

lemma unescape_not_bslash:
  "c \<noteq> BSLASH \<Longrightarrow> unescape_quotes_spec (c # cs) = c # unescape_quotes_spec cs"
  by (cases cs) simp_all

lemma unescape_bslash_not_quote:
  "c \<noteq> DQUOTE \<Longrightarrow> unescape_quotes_spec (BSLASH # c # cs) = BSLASH # unescape_quotes_spec (c # cs)"
  by simp

lemma unquote_list_spec:
  "(pb \<longrightarrow> out \<noteq> [] \<and> last out = BSLASH) \<Longrightarrow>
   unquote_list pb cs out =
     (if bare_list pb cs then Inl ReturnsNull
      else Inr (if pb then butlast out @ unescape_quotes_spec (BSLASH # cs)
                else out @ unescape_quotes_spec cs))"
proof (induction cs arbitrary: pb out)
  case Nil
  show ?case
  proof (cases pb)
    case True
    with Nil have "butlast out @ [BSLASH] = out"
      by (metis append_butlast_last_id)
    with True show ?thesis by simp
  next
    case False
    then show ?thesis by simp
  qed
next
  case (Cons c cs)
  show ?case
  proof (cases "c = DQUOTE")
    case True
    show ?thesis
    proof (cases pb)
      case True
      with Cons.prems have ne: "out \<noteq> []" by simp
      have "unquote_list False cs (butlast out @ [c]) =
        (if bare_list False cs then Inl ReturnsNull
         else Inr ((butlast out @ [c]) @ unescape_quotes_spec cs))"
        using Cons.IH [of False "butlast out @ [c]"] by simp
      with True \<open>c = DQUOTE\<close> ne show ?thesis by simp
    next
      case False
      with True show ?thesis by simp
    qed
  next
    case False
    have ih: "unquote_list (c = BSLASH) cs (out @ [c]) =
      (if bare_list (c = BSLASH) cs then Inl ReturnsNull
       else Inr (if c = BSLASH then out @ unescape_quotes_spec (BSLASH # cs)
                 else (out @ [c]) @ unescape_quotes_spec cs))"
      using Cons.IH [of "c = BSLASH" "out @ [c]"] by simp
    show ?thesis
    proof (cases pb)
      case True
      with Cons.prems have o: "out = butlast out @ [BSLASH]"
        by (metis append_butlast_last_id)
      have "butlast out @ BSLASH # unescape_quotes_spec (c # cs) =
            out @ unescape_quotes_spec (c # cs)"
        by (subst (2) o) simp
      with True False ih show ?thesis
        by (auto simp: unescape_not_bslash)
    next
      case pbF: False
      with False ih show ?thesis
        by (auto simp: unescape_not_bslash)
    qed
  qed
qed



lemma interior_drop_take:
  "2 \<le> length path \<Longrightarrow> drop (Suc 0) (take (length path - Suc 0) path) = butlast (tl path)"
  by (simp add: butlast_conv_take drop_take drop_Suc)

lemma quoted_length_ge_2: "path \<noteq> [] \<Longrightarrow> path \<noteq> [DQUOTE] \<Longrightarrow> hd path = DQUOTE \<Longrightarrow> 2 \<le> length path"
  by (cases path; cases "tl path") auto

text \<open>
  Claim C9.  \<open>get_unquoted_path\<close> returns the null pointer if and only if the input
  is malformed: it is not empty and either exactly one of its first and last
  characters is a quote, or it is the single quote character, or its interior holds a
  quote with no backslash immediately before it.  Otherwise it returns the interior
  with each backslash-quote pair replaced by the quote and every other character,
  other backslashes included, kept.  The empty input is not malformed and gives the
  empty string.  The write through \<open>s-1\<close> never falls before the buffer.
\<close>

theorem get_unquoted_path_spec:
  "get_unquoted_path path =
     (if malformed_quoting_spec path then Inl ReturnsNull
      else Inr (unescape_quotes_spec (interior_spec path)))"
proof (cases "path = []")
  case True
  then show ?thesis
    by (simp add: get_unquoted_path_def malformed_quoting_spec_def interior_spec_def)
next
  case ne: False
  then have hd0: "path ! 0 = hd path" and lst: "path ! (length path - 1) = last path"
    by (simp_all add: hd_conv_nth last_conv_nth)
  have bare: "bare_list False xs \<longleftrightarrow> (\<exists>j \<in> {0 ..< length xs}. bare_quote_at_spec xs j)" for xs
  proof -
    have "(if j = 0 then \<not> False else xs ! (j - 1) \<noteq> BSLASH) \<longleftrightarrow>
          (j = 0 \<or> xs ! (j - 1) \<noteq> BSLASH)" for j
      by (cases "j = 0") simp_all
    then have "bare_list False xs \<longleftrightarrow> (\<exists>j<length xs. bare_quote_at_spec xs j)"
      unfolding bare_list_iff bare_quote_at_spec_def by presburger
    also have "\<dots> \<longleftrightarrow> (\<exists>j \<in> {0 ..< length xs}. bare_quote_at_spec xs j)"
      unfolding Bex_def atLeastLessThan_iff by blast
    finally show ?thesis .
  qed
  show ?thesis
  proof (cases "(hd path = DQUOTE) \<noteq> (last path = DQUOTE) \<or> path = [DQUOTE]")
    case True
    then have m: "malformed_quoting_spec path"
      unfolding malformed_quoting_spec_def using ne by blast
    from True ne hd0 lst have "get_unquoted_path path = Inl ReturnsNull"
      by (auto simp: get_unquoted_path_def Let_def)
    with m show ?thesis by simp
  next
    case False
    then have eq: "(hd path = DQUOTE) = (last path = DQUOTE)" and n1: "path \<noteq> [DQUOTE]"
      by auto
    show ?thesis
    proof (cases "hd path = DQUOTE")
      case True
      with eq have l: "last path = DQUOTE" by simp
      from ne n1 True have len2: "2 \<le> length path"
        by (rule quoted_length_ge_2)
      have g: "get_unquoted_path path = unquote_loop path (length path - 1) 1 []"
        using ne True l hd0 lst len2 by (auto simp: get_unquoted_path_def Let_def)
      have int: "interior_spec path = drop 1 (take (length path - 1) path)"
        using ne True len2 by (simp add: interior_spec_def interior_drop_take)
      have "unquote_loop path (length path - 1) 1 [] =
            unquote_list False (drop 1 (take (length path - 1) path)) []"
        using unquote_loop_list [of 1 "length path - 1" path "[]"] len2 True hd0 by simp
      also have "\<dots> = (if bare_list False (interior_spec path) then Inl ReturnsNull
                       else Inr (unescape_quotes_spec (interior_spec path)))"
        using unquote_list_spec [of False "[]" "interior_spec path"] int by simp
      finally show ?thesis
        using g ne eq n1 by (simp add: malformed_quoting_spec_def bare)
    next
      case False
      with eq have l: "last path \<noteq> DQUOTE" by simp
      have g: "get_unquoted_path path = unquote_loop path (length path) 0 []"
        using ne False l hd0 lst by (auto simp: get_unquoted_path_def Let_def)
      have int: "interior_spec path = path"
        using False by (simp add: interior_spec_def)
      have "unquote_loop path (length path) 0 [] = unquote_list False path []"
        using unquote_loop_list [of 0 "length path" path "[]"] by simp
      also have "\<dots> = (if bare_list False path then Inl ReturnsNull
                       else Inr (unescape_quotes_spec path))"
        using unquote_list_spec [of False "[]" path] by simp
      finally show ?thesis
        using g ne eq n1 int by (simp add: malformed_quoting_spec_def bare)
    qed
  qed
qed

text \<open>The theorem at a well-quoted input, at an unbalanced one and at the empty quotes.\<close>

theorem get_unquoted_path_spec_witness:
  "\<not> malformed_quoting_spec [DQUOTE, CHR ''a'', BSLASH, DQUOTE, CHR ''b'', DQUOTE] \<and>
   get_unquoted_path [DQUOTE, CHR ''a'', BSLASH, DQUOTE, CHR ''b'', DQUOTE] =
     Inr [CHR ''a'', DQUOTE, CHR ''b''] \<and>
   malformed_quoting_spec [DQUOTE, CHR ''a'', CHR ''b'', CHR ''c''] \<and>
   get_unquoted_path [DQUOTE, CHR ''a'', CHR ''b'', CHR ''c''] = Inl ReturnsNull \<and>
   get_unquoted_path [DQUOTE, DQUOTE] = Inr []"
proof -
  have a: "\<not> malformed_quoting_spec [DQUOTE, CHR ''a'', BSLASH, DQUOTE, CHR ''b'', DQUOTE]"
    by code_simp
  have b: "unescape_quotes_spec
             (interior_spec [DQUOTE, CHR ''a'', BSLASH, DQUOTE, CHR ''b'', DQUOTE]) =
           [CHR ''a'', DQUOTE, CHR ''b'']"
    by (simp add: interior_spec_def)
  have c: "malformed_quoting_spec [DQUOTE, CHR ''a'', CHR ''b'', CHR ''c'']"
    by (simp add: malformed_quoting_spec_def)
  have d: "\<not> malformed_quoting_spec [DQUOTE, DQUOTE]"
    by (simp add: malformed_quoting_spec_def interior_spec_def)
  show ?thesis
    using get_unquoted_path_spec [of "[DQUOTE, CHR ''a'', BSLASH, DQUOTE, CHR ''b'', DQUOTE]"]
      get_unquoted_path_spec [of "[DQUOTE, CHR ''a'', CHR ''b'', CHR ''c'']"]
      get_unquoted_path_spec [of "[DQUOTE, DQUOTE]"] a b c d
    by (simp add: interior_spec_def)
qed

lemma bare_list_False_iff:
  "bare_list False xs \<longleftrightarrow> (\<exists>j \<in> {0 ..< length xs}. bare_quote_at_spec xs j)"
proof -
  have "(if j = 0 then \<not> False else xs ! (j - 1) \<noteq> BSLASH) \<longleftrightarrow>
        (j = 0 \<or> xs ! (j - 1) \<noteq> BSLASH)" for j
    by (cases "j = 0") simp_all
  then have "bare_list False xs \<longleftrightarrow> (\<exists>j<length xs. bare_quote_at_spec xs j)"
    unfolding bare_list_iff bare_quote_at_spec_def by presburger
  also have "\<dots> \<longleftrightarrow> (\<exists>j \<in> {0 ..< length xs}. bare_quote_at_spec xs j)"
    unfolding Bex_def atLeastLessThan_iff by blast
  finally show ?thesis .
qed

lemma bare_list_append_bslash: "bare_list pb (s @ [BSLASH]) = bare_list pb s"
  by (induction s arbitrary: pb) simp_all

lemma unescape_append_bslash:
  "unescape_quotes_spec (s @ [BSLASH]) = unescape_quotes_spec s @ [BSLASH]"
  by (induction s rule: unescape_quotes_spec.induct) simp_all

lemma get_unquoted_path_quoted:
  "get_unquoted_path (DQUOTE # t @ [DQUOTE]) = unquote_list False t []"
proof -
  let ?path = "DQUOTE # t @ [DQUOTE]"
  have len: "length ?path = length t + 2" by simp
  have lastc: "?path ! (length t + 1) = DQUOTE"
    by (simp add: nth_append)
  have g: "get_unquoted_path ?path = unquote_loop ?path (length t + 1) 1 []"
    using lastc by (simp add: get_unquoted_path_def Let_def)
  have d: "drop 1 (take (length t + 1) ?path) = t" by simp
  have "unquote_loop ?path (length t + 1) 1 [] =
        unquote_list (1 > (0::nat) \<and> ?path ! (1 - 1) = BSLASH) (drop 1 (take (length t + 1) ?path)) []"
    by (rule unquote_loop_list) simp_all
  also have "\<dots> = unquote_list False t []"
    unfolding d by simp
  finally show ?thesis using g by simp
qed

text \<open>
  Claim C10.  A final quote that follows a backslash is the closing quote and not an
  escaped interior quote.  For every string \<open>s\<close>, on the input made of a quote, \<open>s\<close>, a
  backslash and a quote, the function fails only if \<open>s\<close> itself holds a bare quote, and
  otherwise returns the unescaped \<open>s\<close> followed by the backslash, which is kept.  When
  the input does not start with a quote, a final quote after a backslash still counts
  as an enclosing quote, so the quotes are unbalanced and the result is the null
  pointer.  On the four characters quote, \<open>a\<close>, backslash, quote the result is \<open>a\<close>
  followed by the backslash.
\<close>

theorem unquote_final_escaped_quote_closes:
  "get_unquoted_path (DQUOTE # s @ [BSLASH, DQUOTE]) =
     (if \<exists>j \<in> {0 ..< length s}. bare_quote_at_spec s j then Inl ReturnsNull
      else Inr (unescape_quotes_spec s @ [BSLASH])) \<and>
   (hd (s @ [BSLASH, DQUOTE]) \<noteq> DQUOTE \<longrightarrow>
      get_unquoted_path (s @ [BSLASH, DQUOTE]) = Inl ReturnsNull) \<and>
   get_unquoted_path [DQUOTE, CHR ''a'', BSLASH, DQUOTE] = Inr [CHR ''a'', BSLASH]"
proof -
  have "get_unquoted_path (DQUOTE # (s @ [BSLASH]) @ [DQUOTE]) =
        unquote_list False (s @ [BSLASH]) []"
    by (rule get_unquoted_path_quoted)
  also have "\<dots> = (if bare_list False (s @ [BSLASH]) then Inl ReturnsNull
                   else Inr (unescape_quotes_spec (s @ [BSLASH])))"
    using unquote_list_spec [of False "[]" "s @ [BSLASH]"] by simp
  finally have a: "get_unquoted_path (DQUOTE # s @ [BSLASH, DQUOTE]) =
     (if \<exists>j \<in> {0 ..< length s}. bare_quote_at_spec s j then Inl ReturnsNull
      else Inr (unescape_quotes_spec s @ [BSLASH]))"
    by (simp add: bare_list_append_bslash unescape_append_bslash bare_list_False_iff)
  have b: "get_unquoted_path (s @ [BSLASH, DQUOTE]) = Inl ReturnsNull"
    if "hd (s @ [BSLASH, DQUOTE]) \<noteq> DQUOTE"
  proof -
    let ?path = "s @ [BSLASH, DQUOTE]"
    have "?path ! 0 = hd ?path" by (simp add: hd_conv_nth)
    moreover have "?path ! (length ?path - 1) = DQUOTE"
      by (simp add: nth_append)
    ultimately show ?thesis using that
      by (simp add: get_unquoted_path_def Let_def del: hd_append2)
  qed
  have c: "get_unquoted_path [DQUOTE, CHR ''a'', BSLASH, DQUOTE] = Inr [CHR ''a'', BSLASH]"
    by (simp add: get_unquoted_path_def unquote_loop.simps)
  from a b c show ?thesis by blast
qed

text \<open>The theorem at an input with an escaped quote inside, at one with a bare quote
  inside, and at one without an opening quote.\<close>

theorem unquote_final_escaped_quote_closes_witness:
  "get_unquoted_path [DQUOTE, CHR ''a'', BSLASH, DQUOTE, BSLASH, DQUOTE] =
     Inr [CHR ''a'', DQUOTE, BSLASH] \<and>
   get_unquoted_path [DQUOTE, DQUOTE, BSLASH, DQUOTE] = Inl ReturnsNull \<and>
   get_unquoted_path [CHR ''a'', BSLASH, DQUOTE] = Inl ReturnsNull"
proof -
  let ?s = "[CHR ''a'', BSLASH, DQUOTE]"
  have n1: "\<not> (\<exists>j \<in> {0 ..< length ?s}. bare_quote_at_spec ?s j)" by code_simp
  have u1: "unescape_quotes_spec ?s @ [BSLASH] = [CHR ''a'', DQUOTE, BSLASH]" by simp
  have n2: "\<exists>j \<in> {0 ..< length [DQUOTE]}. bare_quote_at_spec [DQUOTE] j" by code_simp
  have h3: "hd ([CHR ''a''] @ [BSLASH, DQUOTE]) \<noteq> DQUOTE" by simp
  from unquote_final_escaped_quote_closes [of ?s] n1 u1
  have a: "get_unquoted_path (DQUOTE # ?s @ [BSLASH, DQUOTE]) = Inr [CHR ''a'', DQUOTE, BSLASH]"
    by presburger
  from unquote_final_escaped_quote_closes [of "[DQUOTE]"] n2
  have b: "get_unquoted_path (DQUOTE # [DQUOTE] @ [BSLASH, DQUOTE]) = Inl ReturnsNull"
    by presburger
  from unquote_final_escaped_quote_closes [of "[CHR ''a'']"] h3
  have c: "get_unquoted_path ([CHR ''a''] @ [BSLASH, DQUOTE]) = Inl ReturnsNull"
    by blast
  from a b c show ?thesis by simp
qed

section \<open>Properties of \<open>has_glob\<close>\<close>

lemma has_glob_loop_iff:
  "has_glob_loop plat s i \<longleftrightarrow> (\<exists>j. i \<le> j \<and> j < length s \<and> IS_GLOB_CHAR plat s j)"
proof (induction plat s i rule: has_glob_loop.induct)
  case (1 plat s i)
  show ?case
  proof (cases "i < length s")
    case False
    then show ?thesis by (subst has_glob_loop.simps) auto
  next
    case True
    show ?thesis
    proof (cases "IS_GLOB_CHAR plat s i")
      case g: True
      with True show ?thesis by (subst has_glob_loop.simps) auto
    next
      case g: False
      have "has_glob_loop plat s i = has_glob_loop plat s (i + 1)"
        using True g by (subst has_glob_loop.simps) simp
      also have "\<dots> \<longleftrightarrow> (\<exists>j. i + 1 \<le> j \<and> j < length s \<and> IS_GLOB_CHAR plat s j)"
        using "1.IH" [OF True g] .
      also have "\<dots> \<longleftrightarrow> (\<exists>j. i \<le> j \<and> j < length s \<and> IS_GLOB_CHAR plat s j)"
        using g by (metis Suc_eq_plus1 Suc_leD Suc_leI le_neq_implies_less)
      finally show ?thesis .
    qed
  qed
qed

text \<open>
  Claim C8.  \<open>has_glob\<close> is true exactly when the string holds a \<open>*\<close> or \<open>?\<close> that,
  in the build with the escape check (the one that is not Windows), has no backslash
  immediately before it, a metacharacter at index 0 always counting; in the Windows
  build every \<open>*\<close> or \<open>?\<close> counts.  It is true for \<open>a*b\<close> and \<open>a?b\<close> and false for
  \<open>abc\<close> in both builds, and for \<open>a\<close>, backslash, \<open>*\<close>, \<open>b\<close> it is false in the escaping build
  and true in the Windows build.
\<close>

theorem has_glob_spec:
  "(has_glob plat s \<longleftrightarrow>
      (\<exists>i<length s. (s ! i = STAR \<or> s ! i = QMARK) \<and>
         (plat = Win32 \<or> i = 0 \<or> s ! (i - 1) \<noteq> BSLASH))) \<and>
   has_glob plat ''a*b'' \<and> has_glob plat ''a?b'' \<and> \<not> has_glob plat ''abc'' \<and>
   \<not> has_glob Posix [CHR ''a'', BSLASH, STAR, CHR ''b''] \<and>
   has_glob Win32 [CHR ''a'', BSLASH, STAR, CHR ''b'']"
proof -
  have gen: "has_glob plat s \<longleftrightarrow>
      (\<exists>i<length s. (s ! i = STAR \<or> s ! i = QMARK) \<and>
         (plat = Win32 \<or> i = 0 \<or> s ! (i - 1) \<noteq> BSLASH))"
    unfolding has_glob_def has_glob_loop_iff IS_GLOB_CHAR_def
    by (cases plat) auto
  have a: "has_glob plat ''a*b''"
    by (cases plat) (simp_all add: has_glob_def has_glob_loop.simps IS_GLOB_CHAR_def)
  have b: "has_glob plat ''a?b''"
    by (cases plat) (simp_all add: has_glob_def has_glob_loop.simps IS_GLOB_CHAR_def)
  have c: "\<not> has_glob plat ''abc''"
    by (cases plat) (simp_all add: has_glob_def has_glob_loop.simps IS_GLOB_CHAR_def)
  have d: "\<not> has_glob Posix [CHR ''a'', BSLASH, STAR, CHR ''b'']"
    by (simp add: has_glob_def has_glob_loop.simps IS_GLOB_CHAR_def)
  have e: "has_glob Win32 [CHR ''a'', BSLASH, STAR, CHR ''b'']"
    by (simp add: has_glob_def has_glob_loop.simps IS_GLOB_CHAR_def)
  from gen a b c d e show ?thesis by blast
qed

text \<open>The theorem at a pattern whose last metacharacter is not escaped and at one
  whose only metacharacter is.\<close>

theorem has_glob_spec_witness:
  "has_glob Posix [CHR ''x'', BSLASH, QMARK, STAR] \<and>
   \<not> has_glob Posix [BSLASH, QMARK]"
proof -
  have w: "\<exists>i<length [CHR ''x'', BSLASH, QMARK, STAR].
     ([CHR ''x'', BSLASH, QMARK, STAR] ! i = STAR \<or> [CHR ''x'', BSLASH, QMARK, STAR] ! i = QMARK) \<and>
     (Posix = Win32 \<or> i = 0 \<or> [CHR ''x'', BSLASH, QMARK, STAR] ! (i - 1) \<noteq> BSLASH)"
    by (rule exI [of _ 3]) simp
  have n: "\<not> (\<exists>i<length [BSLASH, QMARK].
     ([BSLASH, QMARK] ! i = STAR \<or> [BSLASH, QMARK] ! i = QMARK) \<and>
     (Posix = Win32 \<or> i = 0 \<or> [BSLASH, QMARK] ! (i - 1) \<noteq> BSLASH))"
    by (auto simp: less_Suc_eq)
  show ?thesis
    using has_glob_spec [of Posix "[CHR ''x'', BSLASH, QMARK, STAR]"]
      has_glob_spec [of Posix "[BSLASH, QMARK]"] w n
    by blast
qed

section \<open>Properties of \<open>path_is_relative\<close>\<close>

lemma path_is_relative_null_or_empty:
  "path_is_relative plat None" "path_is_relative plat (Some [])"
  by (simp_all add: path_is_relative_def)

lemma path_is_relative_separator:
  "\<not> path_is_relative plat (Some (SLASH # f))"
  "\<not> path_is_relative Win32 (Some (BSLASH # f))"
  by (simp_all add: path_is_relative_def)

lemma path_is_relative_drive_longer:
  "TOR_ISALPHA c \<Longrightarrow> f \<noteq> [] \<Longrightarrow> \<not> path_is_relative Win32 (Some (c # COLON # BSLASH # f))"
  by (cases f) (simp_all add: path_is_relative_def)

lemma path_is_relative_drive_root_any:
  "c \<noteq> SLASH \<Longrightarrow> c \<noteq> BSLASH \<Longrightarrow> path_is_relative Win32 (Some [c, COLON, BSLASH])"
  by (simp add: path_is_relative_def)

text \<open>
  Claim C7.  The claim says that in the Windows build every path that begins with a
  letter, a colon and a backslash is absolute, the bare drive root of three characters included.
  The code asks for \<open>strlen(filename) > 3\<close>, so on the three characters \<open>C\<close>, colon,
  backslash it returns 1: the drive root is classified as relative.
\<close>

theorem path_is_relative_drive_root:
  "path_is_relative Win32 (Some [CHR ''C'', COLON, BSLASH]) = True"
  by (simp add: path_is_relative_def)

section \<open>Properties of \<open>get_parent_directory\<close>\<close>

lemma parent_loop_trailing:
  "\<forall>c\<in>set seps. is_sep plat c \<Longrightarrow> base \<noteq> [] \<Longrightarrow>
   parent_loop plat (base @ seps) (length base + length seps) True =
   parent_loop plat base (length base) True"
proof (induction seps rule: rev_induct)
  case Nil
  show ?case by simp
next
  case (snoc s ss)
  have nth: "(base @ ss @ [s]) ! (length base + length ss) = s"
    by (metis append.assoc length_append nth_append_length)
  have tk: "take (length base + length ss) (base @ ss @ [s]) = base @ ss"
    by (metis append.assoc append_eq_conv_conj length_append)
  from snoc.prems have s: "is_sep plat s" and ss: "\<forall>c\<in>set ss. is_sep plat c" by simp_all
  from snoc.prems have pos: "length base + length ss \<noteq> 0" by simp
  have "parent_loop plat (base @ ss @ [s]) (Suc (length base + length ss)) True =
        parent_loop plat (base @ ss) (length base + length ss) True"
    using s pos by (simp add: nth tk del: append_assoc)
  with snoc.IH [OF ss snoc.prems(2)] show ?case by simp
qed

lemma parent_loop_component:
  "\<forall>c\<in>set leaf. \<not> is_sep plat c \<Longrightarrow> k \<le> length leaf \<Longrightarrow> 0 < k \<Longrightarrow>
   parent_loop plat (x @ leaf) (length x + k) at_end = parent_loop plat (x @ leaf) (length x) False"
proof (induction k arbitrary: at_end)
  case 0
  then show ?case by simp
next
  case (Suc k)
  from Suc.prems have "leaf ! k \<in> set leaf" by simp
  with Suc.prems have ns: "\<not> is_sep plat ((x @ leaf) ! (length x + k))"
    by (simp add: nth_append)
  have step: "parent_loop plat (x @ leaf) (length x + Suc k) at_end =
              parent_loop plat (x @ leaf) (length x + k) False"
    using ns by simp
  show ?case
  proof (cases "k = 0")
    case True
    with step show ?thesis by simp
  next
    case False
    with Suc.IH [of False] Suc.prems step show ?thesis by simp
  qed
qed

lemma parent_loop_cut:
  "is_sep plat sep \<Longrightarrow>
   parent_loop plat (d @ sep # leaf) (Suc (length d)) False =
     (0, if d = [] then [sep] else d)"
  by (cases d) simp_all

lemma parent_loop_found:
  assumes "leaf \<noteq> []" "\<forall>c\<in>set leaf. \<not> is_sep plat c" "\<forall>c\<in>set seps. is_sep plat c"
    "is_sep plat sep"
  shows "parent_loop plat (d @ sep # leaf @ seps) (length (d @ sep # leaf @ seps)) True =
     (0, if d = [] then [sep] else d)"
proof -
  let ?base = "d @ sep # leaf"
  have "parent_loop plat (?base @ seps) (length ?base + length seps) True =
        parent_loop plat ?base (length ?base) True"
    using assms(3) by (intro parent_loop_trailing) simp_all
  also have "\<dots> = parent_loop plat ((d @ [sep]) @ leaf) (length (d @ [sep]) + length leaf) True"
    by (simp del: parent_loop.simps)
  also have "\<dots> = parent_loop plat ((d @ [sep]) @ leaf) (length (d @ [sep])) False"
    using assms(1,2) by (intro parent_loop_component) simp_all
  also have "\<dots> = (0, if d = [] then [sep] else d)"
    using parent_loop_cut [OF assms(4), of d leaf] by (simp del: parent_loop.simps)
  finally show ?thesis by (cases "d = []") (simp_all del: parent_loop.simps add: add.assoc)
qed

lemma parent_loop_none:
  assumes "\<forall>c\<in>set leaf. \<not> is_sep plat c" "\<forall>c\<in>set seps. is_sep plat c" "leaf \<noteq> []"
  shows "parent_loop plat (leaf @ seps) (length (leaf @ seps)) True = (- 1, leaf)"
proof -
  have "parent_loop plat (leaf @ seps) (length leaf + length seps) True =
        parent_loop plat leaf (length leaf) True"
    using assms by (intro parent_loop_trailing) simp_all
  also have "\<dots> = parent_loop plat ([] @ leaf) (length ([]::string) + length leaf) True"
    by (simp del: parent_loop.simps)
  also have "\<dots> = parent_loop plat ([] @ leaf) (length ([]::string)) False"
    using assms by (intro parent_loop_component) simp_all
  also have "\<dots> = (- 1, leaf)" by simp
  finally show ?thesis by (simp del: parent_loop.simps)
qed

text \<open>
  Claim C6.  \<open>get_parent_directory\<close> turns \<open>/a/b/c\<close> into \<open>/a/b\<close> and returns 0; it
  leaves \<open>/\<close> as it is and returns 0; on \<open>abc\<close> it returns -1.  Trailing separators
  are cut off and play no part in finding the separator before the last component:
  for a path made of an optional drive prefix \<open>drv\<close>, a directory part \<open>d\<close>, a
  separator, a last component \<open>leaf\<close> without separators and any run \<open>seps\<close> of
  trailing separators, the buffer is left holding \<open>drv\<close> and \<open>d\<close> (the separator itself
  when \<open>d\<close> is empty), with result 0; and a path of one component followed by
  trailing separators loses them and gives -1.
\<close>

theorem get_parent_directory_spec:
  "get_parent_directory plat ''/a/b/c'' = (0, ''/a/b'') \<and>
   get_parent_directory plat ''/'' = (0, ''/'') \<and>
   get_parent_directory plat ''abc'' = (- 1, ''abc'') \<and>
   (leaf \<noteq> [] \<and> (\<forall>c\<in>set leaf. \<not> is_sep plat c) \<and> (\<forall>c\<in>set seps. is_sep plat c) \<and>
    is_sep plat sep \<and> drive_len plat (drv @ d @ sep # leaf @ seps) = length drv \<longrightarrow>
      get_parent_directory plat (drv @ d @ sep # leaf @ seps) =
        (0, drv @ (if d = [] then [sep] else d))) \<and>
   (leaf \<noteq> [] \<and> (\<forall>c\<in>set leaf. \<not> is_sep plat c) \<and> (\<forall>c\<in>set seps. is_sep plat c) \<and>
    drive_len plat (drv @ leaf @ seps) = length drv \<longrightarrow>
      get_parent_directory plat (drv @ leaf @ seps) = (- 1, drv @ leaf))"
proof -
  have a: "get_parent_directory plat ''/a/b/c'' = (0, ''/a/b'')"
    by (cases plat) (simp_all add: get_parent_directory_def drive_len_def is_sep_def)
  have b: "get_parent_directory plat ''/'' = (0, ''/'')"
    by (cases plat) (simp_all add: get_parent_directory_def drive_len_def is_sep_def)
  have c: "get_parent_directory plat ''abc'' = (- 1, ''abc'')"
    by (cases plat) (simp_all add: get_parent_directory_def drive_len_def is_sep_def)
  have d: "get_parent_directory plat (drv @ d @ sep # leaf @ seps) =
        (0, drv @ (if d = [] then [sep] else d))"
    if "leaf \<noteq> []" "\<forall>c\<in>set leaf. \<not> is_sep plat c" "\<forall>c\<in>set seps. is_sep plat c"
      "is_sep plat sep" "drive_len plat (drv @ d @ sep # leaf @ seps) = length drv"
    using parent_loop_found [OF that(1-4), of d] that(5)
    by (simp add: get_parent_directory_def)
  have e: "get_parent_directory plat (drv @ leaf @ seps) = (- 1, drv @ leaf)"
    if "leaf \<noteq> []" "\<forall>c\<in>set leaf. \<not> is_sep plat c" "\<forall>c\<in>set seps. is_sep plat c"
      "drive_len plat (drv @ leaf @ seps) = length drv"
    using parent_loop_none [OF that(2,3,1)] that(4)
    by (simp add: get_parent_directory_def)
  from a b c d e show ?thesis by blast
qed

text \<open>The theorem at a path with three trailing slashes, at a Windows path with a drive
  prefix and mixed trailing separators, and at a bare name with trailing slashes.\<close>

theorem get_parent_directory_spec_witness:
  "get_parent_directory Posix ''/a/b/c///'' = (0, ''/a/b'') \<and>
   get_parent_directory Win32 ([CHR ''c'', COLON, BSLASH] @ ''x'' @ [BSLASH, SLASH]) =
     (0, [CHR ''c'', COLON, BSLASH]) \<and>
   get_parent_directory Posix ''abc//'' = (- 1, ''abc'')"
proof -
  have 1: "get_parent_directory Posix ''/a/b/c///'' = (0, ''/a/b'')"
    using get_parent_directory_spec [of Posix "''c''" "''///''" "CHR ''/''" "[]" "''/a/b''"]
    by (simp add: is_sep_def drive_len_def)
  have 2: "get_parent_directory Win32 ([CHR ''c'', COLON, BSLASH] @ ''x'' @ [BSLASH, SLASH]) =
     (0, [CHR ''c'', COLON, BSLASH])"
    using get_parent_directory_spec [of Win32 "''x''" "[BSLASH, SLASH]" BSLASH "[CHR ''c'', COLON]" "[]"]
    by (simp add: is_sep_def drive_len_def)
  have 3: "get_parent_directory Posix ''abc//'' = (- 1, ''abc'')"
    using get_parent_directory_spec [of Posix "''abc''" "''//''" _ "[]"]
    by (simp add: is_sep_def drive_len_def)
  from 1 2 3 show ?thesis by simp
qed

section \<open>Properties of the manual glob backend\<close>

lemma glob_fragment_loop_is_glob:
  "fst (glob_fragment_loop pattern i g p c) \<longleftrightarrow>
     g \<or> (\<exists>j. i \<le> j \<and> j < length pattern \<and> IS_GLOB_CHAR Win32 pattern j)"
proof (induction pattern i g p c rule: glob_fragment_loop.induct)
  case (1 pattern i is_glob prev_sep curr_sep)
  show ?case
  proof (cases "i < length pattern")
    case False
    then show ?thesis by (subst glob_fragment_loop.simps) auto
  next
    case True
    let ?g = "is_glob \<or> IS_GLOB_CHAR Win32 pattern i"
    have shift: "(\<exists>j. i \<le> j \<and> j < length pattern \<and> IS_GLOB_CHAR Win32 pattern j) \<longleftrightarrow>
        IS_GLOB_CHAR Win32 pattern i \<or>
        (\<exists>j. i + 1 \<le> j \<and> j < length pattern \<and> IS_GLOB_CHAR Win32 pattern j)"
      using True by (metis Suc_eq_plus1 Suc_leD Suc_leI le_neq_implies_less order_refl)
    consider (brk) "(pattern ! i = hd (PATH_SEPARATOR Win32) \<or> pattern ! i = SLASH \<or>
                     i + 1 = length pattern) \<and> ?g"
      | (sep) "(pattern ! i = hd (PATH_SEPARATOR Win32) \<or> pattern ! i = SLASH \<or>
                     i + 1 = length pattern) \<and> \<not> ?g"
      | (go) "\<not> (pattern ! i = hd (PATH_SEPARATOR Win32) \<or> pattern ! i = SLASH \<or>
                     i + 1 = length pattern)"
      by blast
    then show ?thesis
    proof cases
      case brk
      then have "glob_fragment_loop pattern i is_glob prev_sep curr_sep = (True, curr_sep, int i)"
        using True by (subst glob_fragment_loop.simps) (auto simp: Let_def)
      with brk shift show ?thesis by auto
    next
      case sep
      then have "glob_fragment_loop pattern i is_glob prev_sep curr_sep =
                 glob_fragment_loop pattern (i + 1) ?g curr_sep (int i)"
        using True by (subst glob_fragment_loop.simps) (auto simp: Let_def)
      moreover have "fst (glob_fragment_loop pattern (i + 1) ?g curr_sep (int i)) \<longleftrightarrow>
          ?g \<or> (\<exists>j. i + 1 \<le> j \<and> j < length pattern \<and> IS_GLOB_CHAR Win32 pattern j)"
        using sep by (intro "1.IH"(1) [OF True refl refl refl]) auto
      ultimately show ?thesis using shift by auto
    next
      case go
      then have "glob_fragment_loop pattern i is_glob prev_sep curr_sep =
                 glob_fragment_loop pattern (i + 1) ?g prev_sep curr_sep"
        using True by (subst glob_fragment_loop.simps) (auto simp: Let_def)
      moreover have "fst (glob_fragment_loop pattern (i + 1) ?g prev_sep curr_sep) \<longleftrightarrow>
          ?g \<or> (\<exists>j. i + 1 \<le> j \<and> j < length pattern \<and> IS_GLOB_CHAR Win32 pattern j)"
        using go by (intro "1.IH"(2) [OF True refl refl refl]) auto
      ultimately show ?thesis using shift by auto
    qed
  qed
qed

lemma glob_fragment_loop_has_glob:
  "fst (glob_fragment_loop pattern 0 False p c) = has_glob Win32 pattern"
  unfolding glob_fragment_loop_is_glob has_glob_def has_glob_loop_iff by simp


lemma tor_glob_win32_non_glob:
  assumes "\<not> has_glob Win32 pattern"
  shows "tor_glob_win32 (Suc fuel) env pattern =
     Returns (if file_status env pattern = FN_ERROR then None
              else if file_status env pattern = FN_NOENT then Some []
              else Some [clean_fname_for_stat Win32 pattern])"
proof -
  obtain g p c where s: "glob_fragment_loop pattern 0 False (- 1) (- 1) = (g, p, c)"
    by (metis prod_cases3)
  with glob_fragment_loop_has_glob [of pattern "- 1" "- 1"] assms have "\<not> g" by simp
  with s show ?thesis by (simp add: add_non_glob_path_def Let_def)
qed

lemma tor_glob_win32_glob:
  assumes "glob_fragment_loop pattern 0 False (- 1) (- 1) = (True, prev_sep, curr_sep)"
  shows "tor_glob_win32 (Suc fuel) env pattern =
     (case unglob_win32 env pattern prev_sep curr_sep of
        None \<Rightarrow> Returns None
      | Some unglobbed_paths \<Rightarrow>
          (case glob_foreach (tor_glob_win32 fuel env)
                  (drop (nat (curr_sep + 1)) pattern) unglobbed_paths [] of
             OutOfFuel \<Rightarrow> OutOfFuel
           | Returns (error_found, results) \<Rightarrow>
               Returns (if error_found then None else Some results)))"
  using assms by simp

lemma glob_foreach_any_error:
  assumes "k < length paths"
    and "recurse (paths ! k @ PATH_SEPARATOR Win32 @ rest) = Returns None"
    and "\<forall>j<k. recurse (paths ! j @ PATH_SEPARATOR Win32 @ rest) \<noteq> OutOfFuel"
  shows "\<exists>results. glob_foreach recurse rest paths acc = Returns (True, results)"
  using assms
proof (induction paths arbitrary: k acc)
  case Nil
  then show ?case by simp
next
  case (Cons p ps)
  show ?case
  proof (cases k)
    case 0
    with Cons.prems(2) show ?thesis by simp
  next
    case (Suc k')
    with Cons.prems(3) have ret: "recurse (p @ PATH_SEPARATOR Win32 @ rest) \<noteq> OutOfFuel"
      by fastforce
    show ?thesis
    proof (cases "recurse (p @ PATH_SEPARATOR Win32 @ rest)")
      case OutOfFuel
      with ret show ?thesis by simp
    next
      case (Returns r)
      show ?thesis
      proof (cases r)
        case None
        with Returns show ?thesis by simp
      next
        case (Some l)
        have k: "k' < length ps" using Cons.prems(1) Suc by simp
        have at: "recurse (ps ! k' @ PATH_SEPARATOR Win32 @ rest) = Returns None"
          using Cons.prems(2) Suc by simp
        have before: "\<forall>j<k'. recurse (ps ! j @ PATH_SEPARATOR Win32 @ rest) \<noteq> OutOfFuel"
        proof (intro allI impI)
          fix j assume "j < k'"
          then have "Suc j < k" using Suc by simp
          with Cons.prems(3) have "recurse ((p # ps) ! Suc j @ PATH_SEPARATOR Win32 @ rest) \<noteq> OutOfFuel"
            by blast
          then show "recurse (ps ! j @ PATH_SEPARATOR Win32 @ rest) \<noteq> OutOfFuel" by simp
        qed
        from Cons.IH [OF k at before, of "acc @ l"] Returns Some show ?thesis by simp
      qed
    qed
  qed
qed

lemma glob_foreach_success:
  assumes "glob_foreach recurse rest paths acc = Returns (False, results)"
  shows "(\<forall>p\<in>set paths. \<exists>r. recurse (p @ PATH_SEPARATOR Win32 @ rest) = Returns (Some r)) \<and>
         results = acc @ concat (map (\<lambda>p. sub_matches (recurse (p @ PATH_SEPARATOR Win32 @ rest))) paths)"
  using assms
proof (induction paths arbitrary: acc)
  case Nil
  then show ?case by simp
next
  case (Cons p ps)
  from Cons.prems obtain r where
    r: "recurse (p @ PATH_SEPARATOR Win32 @ rest) = Returns (Some r)"
    by (auto split: fuelled.splits option.splits)
  with Cons.prems have "glob_foreach recurse rest ps (acc @ r) = Returns (False, results)"
    by simp
  from Cons.IH [OF this] r show ?case by (simp add: sub_matches_def)
qed

lemma glob_foreach_all_success:
  assumes "\<forall>p\<in>set paths. \<exists>r. recurse (p @ PATH_SEPARATOR Win32 @ rest) = Returns (Some r)"
  shows "glob_foreach recurse rest paths acc =
     Returns (False, acc @ concat (map (\<lambda>p. sub_matches (recurse (p @ PATH_SEPARATOR Win32 @ rest))) paths))"
  using assms
proof (induction paths arbitrary: acc)
  case Nil
  then show ?case by simp
next
  case (Cons p ps)
  from Cons.prems obtain r where
    r: "recurse (p @ PATH_SEPARATOR Win32 @ rest) = Returns (Some r)"
    by auto
  from Cons.prems have "\<forall>p\<in>set ps. \<exists>r. recurse (p @ PATH_SEPARATOR Win32 @ rest) = Returns (Some r)"
    by simp
  from Cons.IH [OF this, of "acc @ r"] r show ?case by (simp add: sub_matches_def)
qed

lemma glob_foreach_mono:
  assumes "\<And>q r. rec1 q = Returns r \<Longrightarrow> rec2 q = Returns r"
    and "glob_foreach rec1 rest paths acc = Returns x"
  shows "glob_foreach rec2 rest paths acc = Returns x"
  using assms(2)
proof (induction paths arbitrary: acc)
  case Nil
  then show ?case by simp
next
  case (Cons p ps)
  show ?case
  proof (cases "rec1 (p @ PATH_SEPARATOR Win32 @ rest)")
    case OutOfFuel
    with Cons.prems show ?thesis by simp
  next
    case (Returns r)
    note r2 = assms(1) [OF Returns]
    show ?thesis
    proof (cases r)
      case None
      with Returns r2 Cons.prems show ?thesis by simp
    next
      case (Some l)
      with Returns Cons.prems have "glob_foreach rec1 rest ps (acc @ l) = Returns x" by simp
      from Cons.IH [OF this] Some r2 show ?thesis by simp
    qed
  qed
qed

lemma tor_glob_win32_fuel_Suc:
  "tor_glob_win32 fuel env pattern = Returns r \<Longrightarrow>
   tor_glob_win32 (Suc fuel) env pattern = Returns r"
proof (induction fuel arbitrary: pattern r)
  case 0
  then show ?case by simp
next
  case (Suc n)
  obtain g p c where s: "glob_fragment_loop pattern 0 False (- 1) (- 1) = (g, p, c)"
    by (metis prod_cases3)
  show ?case
  proof (cases g)
    case False
    with s Suc.prems show ?thesis by simp
  next
    case True
    show ?thesis
    proof (cases "unglob_win32 env pattern p c")
      case None
      with s True Suc.prems show ?thesis by simp
    next
      case (Some paths)
      from Suc.prems s True Some obtain x where
        x: "glob_foreach (tor_glob_win32 n env) (drop (nat (c + 1)) pattern) paths [] = Returns x"
        by (auto split: fuelled.splits)
      have "glob_foreach (tor_glob_win32 (Suc n) env) (drop (nat (c + 1)) pattern) paths [] = Returns x"
        using glob_foreach_mono [OF Suc.IH x] .
      with x Suc.prems s True Some show ?thesis
        by (simp del: tor_glob_win32.simps
              add: tor_glob_win32_glob [of pattern p c])
    qed
  qed
qed

lemma tor_glob_win32_fuel_mono:
  "tor_glob_win32 fuel env pattern = Returns r \<Longrightarrow> fuel \<le> fuel' \<Longrightarrow>
   tor_glob_win32 fuel' env pattern = Returns r"
  by (induction fuel' ) (auto simp: le_Suc_eq dest: tor_glob_win32_fuel_Suc simp del: tor_glob_win32.simps)

lemma unglob_win32_None_iff:
  "unglob_win32 env pattern prev_sep curr_sep = None \<longleftrightarrow>
     \<not> is_file env (file_status env
           (take (nat (if prev_sep < 1 then prev_sep + 1 else prev_sep)) pattern)) \<and>
     tor_listdir env (take (nat (if prev_sep < 1 then prev_sep + 1 else prev_sep)) pattern) = None"
  by (auto simp: unglob_win32_def Let_def split: option.splits)

lemma unglob_win32_is_file:
  "is_file env (file_status env
       (take (nat (if prev_sep < 1 then prev_sep + 1 else prev_sep)) pattern)) \<Longrightarrow>
   unglob_win32 env pattern prev_sep curr_sep = Some []"
  by (simp add: unglob_win32_def Let_def)

lemma glob_foreach_error_source:
  "glob_foreach recurse rest paths acc = Returns (True, results) \<Longrightarrow>
   \<exists>p\<in>set paths. recurse (p @ PATH_SEPARATOR Win32 @ rest) = Returns None"
proof (induction paths arbitrary: acc)
  case Nil
  then show ?case by simp
next
  case (Cons p ps)
  show ?case
  proof (cases "recurse (p @ PATH_SEPARATOR Win32 @ rest)")
    case OutOfFuel
    with Cons.prems show ?thesis by simp
  next
    case (Returns r)
    show ?thesis
    proof (cases r)
      case None
      with Returns show ?thesis by simp
    next
      case (Some l)
      with Returns Cons.prems have "glob_foreach recurse rest ps (acc @ l) = Returns (True, results)"
        by simp
      from Cons.IH [OF this] show ?thesis by auto
    qed
  qed
qed

lemma tor_glob_win32_error_source:
  "tor_glob_win32 fuel env pattern = Returns None \<Longrightarrow>
   \<exists>p. file_status env p = FN_ERROR \<or> tor_listdir env p = None"
proof (induction fuel arbitrary: pattern)
  case 0
  then show ?case by simp
next
  case (Suc n)
  obtain g p c where s: "glob_fragment_loop pattern 0 False (- 1) (- 1) = (g, p, c)"
    by (metis prod_cases3)
  show ?case
  proof (cases g)
    case False
    with s Suc.prems have "file_status env pattern = FN_ERROR"
      by (auto simp: add_non_glob_path_def Let_def split: if_splits)
    then show ?thesis by blast
  next
    case True
    show ?thesis
    proof (cases "unglob_win32 env pattern p c")
      case None
      then show ?thesis unfolding unglob_win32_None_iff by blast
    next
      case (Some paths)
      from Suc.prems s True Some obtain results where
        "glob_foreach (tor_glob_win32 n env) (drop (nat (c + 1)) pattern) paths [] =
         Returns (True, results)"
        by (auto split: fuelled.splits if_splits)
      from glob_foreach_error_source [OF this] obtain q where
        "tor_glob_win32 n env q = Returns None" by blast
      from Suc.IH [OF this] show ?thesis .
    qed
  qed
qed

lemma has_glob_normalized:
  "has_glob Win32 (tor_strreplacechar pattern SLASH BSLASH) = has_glob Win32 pattern"
proof -
  have "IS_GLOB_CHAR Win32 (tor_strreplacechar pattern SLASH BSLASH) j =
        IS_GLOB_CHAR Win32 pattern j" if "j < length pattern" for j
    using that by (simp add: IS_GLOB_CHAR_def tor_strreplacechar_def)
  moreover have "length (tor_strreplacechar pattern SLASH BSLASH) = length pattern"
    by (simp add: tor_strreplacechar_def)
  ultimately show ?thesis
    unfolding has_glob_def has_glob_loop_iff by auto
qed

lemma clean_fname_for_stat_Win32:
  "clean_fname_for_stat Win32 name =
     (if name \<noteq> [] \<and> is_sep Win32 (last name) \<and> length name \<noteq> 1 \<and>
         \<not> (length name = 3 \<and> name ! 1 = COLON)
      then butlast name else name)"
  by (auto simp: clean_fname_for_stat_def Let_def is_sep_def last_conv_nth butlast_conv_take)

lemma strip_match_eq:
  "strip_match m = (if m \<noteq> [] \<and> last m = SLASH then butlast m else m)"
  by (auto simp: strip_match_def Let_def PATH_SEPARATOR_def last_conv_nth butlast_conv_take)


subsection \<open>The recursion ends\<close>

lemma glob_count_append [simp]: "glob_count (a @ b) = glob_count a + glob_count b"
  by (simp add: glob_count_def)

lemma glob_count_Nil [simp]: "glob_count [] = 0"
  by (simp add: glob_count_def)

lemma glob_count_separator [simp]: "glob_count (PATH_SEPARATOR Win32) = 0"
  by (simp add: glob_count_def PATH_SEPARATOR_def)

lemma glob_char_in_set:
  "(\<exists>j<length s. P (s ! j)) \<longleftrightarrow> (\<exists>c\<in>set s. P c)"
  by (metis in_set_conv_nth)

lemma glob_count_0_iff: "glob_count s = 0 \<longleftrightarrow> \<not> has_glob Win32 s"
proof -
  have "has_glob Win32 s \<longleftrightarrow> (\<exists>j<length s. s ! j = STAR \<or> s ! j = QMARK)"
    unfolding has_glob_def has_glob_loop_iff IS_GLOB_CHAR_def by simp
  also have "\<dots> \<longleftrightarrow> (\<exists>c\<in>set s. c = STAR \<or> c = QMARK)"
    by (rule glob_char_in_set)
  finally have "has_glob Win32 s \<longleftrightarrow> (\<exists>c\<in>set s. c = STAR \<or> c = QMARK)" .
  then show ?thesis
    by (simp add: glob_count_def filter_empty_conv)
qed

lemma glob_count_take_0:
  assumes "\<forall>j<n. j < length s \<longrightarrow> \<not> IS_GLOB_CHAR Win32 s j"
  shows "glob_count (take n s) = 0"
proof -
  have "\<not> (c = STAR \<or> c = QMARK)" if "c \<in> set (take n s)" for c
  proof -
    from that obtain j where j: "j < length (take n s)" "take n s ! j = c"
      by (auto simp: in_set_conv_nth)
    then have "j < n" "j < length s" "s ! j = c" by simp_all
    with assms show ?thesis by (auto simp: IS_GLOB_CHAR_def)
  qed
  then show ?thesis by (auto simp: glob_count_def filter_empty_conv)
qed

lemma glob_count_drop_less:
  assumes "j < n" "j < length s" "IS_GLOB_CHAR Win32 s j"
  shows "glob_count (drop n s) < glob_count s"
proof -
  have "s ! j \<in> set (take n s)"
    using assms(1,2) by (metis in_set_conv_nth length_take min_less_iff_conj nth_take)
  moreover have "s ! j = STAR \<or> s ! j = QMARK"
    using assms(3) by (simp add: IS_GLOB_CHAR_def)
  ultimately have "filter (\<lambda>c. c = STAR \<or> c = QMARK) (take n s) \<noteq> []"
    by (auto simp: filter_empty_conv)
  then have "0 < glob_count (take n s)" by (simp add: glob_count_def)
  moreover have "glob_count s = glob_count (take n s) + glob_count (drop n s)"
    by (metis append_take_drop_id glob_count_append)
  ultimately show ?thesis by simp
qed


lemma glob_fragment_loop_break:
  assumes "glob_fragment_loop pattern i g p c = (True, p', c')"
    and "g \<longleftrightarrow> (\<exists>j<i. c < int j \<and> IS_GLOB_CHAR Win32 pattern j)"
    and "\<forall>j<i. int j \<le> c \<longrightarrow> \<not> IS_GLOB_CHAR Win32 pattern j"
    and "c < int i" and "g \<longrightarrow> i < length pattern" and "i \<le> length pattern"
  shows "(\<forall>j<length pattern. int j \<le> p' \<longrightarrow> \<not> IS_GLOB_CHAR Win32 pattern j) \<and>
         p' < c' \<and> c' < int (length pattern) \<and>
         (\<exists>j<length pattern. int j \<le> c' \<and> IS_GLOB_CHAR Win32 pattern j)"
  using assms
proof (induction pattern i g p c rule: glob_fragment_loop.induct)
  case (1 pattern i is_glob prev_sep curr_sep)
  let ?G = "IS_GLOB_CHAR Win32 pattern"
  show ?case
  proof (cases "i < length pattern")
    case False
    with "1.prems"(1) have "is_glob" by (subst (asm) glob_fragment_loop.simps) simp
    with "1.prems"(5) False show ?thesis by simp
  next
    case True
    let ?g = "is_glob \<or> ?G i"
    let ?stop = "pattern ! i = hd (PATH_SEPARATOR Win32) \<or> pattern ! i = SLASH \<or>
                 i + 1 = length pattern"
    have g_iff: "?g \<longleftrightarrow> (\<exists>j<i + 1. curr_sep < int j \<and> ?G j)"
    proof
      assume ?g
      then show "\<exists>j<i + 1. curr_sep < int j \<and> ?G j"
      proof
        assume is_glob
        with "1.prems"(2) obtain j where "j < i" "curr_sep < int j" "?G j" by blast
        then have "j < i + 1 \<and> curr_sep < int j \<and> ?G j" by simp
        then show ?thesis by blast
      next
        assume "?G i"
        with "1.prems"(4) have "i < i + 1 \<and> curr_sep < int i \<and> ?G i" by simp
        then show ?thesis by blast
      qed
    next
      assume "\<exists>j<i + 1. curr_sep < int j \<and> ?G j"
      then obtain j where j: "j < i + 1" "curr_sep < int j" "?G j" by blast
      show ?g
      proof (cases "j = i")
        case True
        with j show ?thesis by simp
      next
        case False
        with j have "j < i" by simp
        with j "1.prems"(2) show ?thesis by blast
      qed
    qed
    consider (brk) "?stop" "?g" | (sep) "?stop" "\<not> ?g" | (go) "\<not> ?stop" by blast
    then show ?thesis
    proof cases
      case brk
      then have "glob_fragment_loop pattern i is_glob prev_sep curr_sep = (True, curr_sep, int i)"
        using True by (subst glob_fragment_loop.simps) (auto simp: Let_def)
      with "1.prems"(1) have eq: "p' = curr_sep" "c' = int i" by simp_all
      from g_iff brk(2) obtain j where j: "j < i + 1" "?G j" by blast
      have a: "\<forall>j<length pattern. int j \<le> p' \<longrightarrow> \<not> ?G j"
        using "1.prems"(3,4) eq by auto
      have b: "\<exists>j<length pattern. int j \<le> c' \<and> ?G j"
        using j True eq by (intro exI [of _ j]) simp
      from a b eq "1.prems"(4) True show ?thesis by simp
    next
      case sep
      then have step: "glob_fragment_loop pattern i is_glob prev_sep curr_sep =
                 glob_fragment_loop pattern (i + 1) ?g curr_sep (int i)"
        using True by (subst glob_fragment_loop.simps) (auto simp: Let_def)
      have none_upto: "\<forall>j<i + 1. int j \<le> int i \<longrightarrow> \<not> ?G j"
      proof (intro allI impI)
        fix j assume j: "j < i + 1" "int j \<le> int i"
        show "\<not> ?G j"
        proof (cases "int j \<le> curr_sep")
          case True
          with j "1.prems"(3,4) show ?thesis by auto
        next
          case False
          with j g_iff sep(2) show ?thesis by auto
        qed
      qed
      have "(\<forall>j<length pattern. int j \<le> p' \<longrightarrow> \<not> ?G j) \<and>
         p' < c' \<and> c' < int (length pattern) \<and>
         (\<exists>j<length pattern. int j \<le> c' \<and> ?G j)"
      proof (rule "1.IH"(1) [OF True refl refl refl])
        show "(pattern ! i = hd (PATH_SEPARATOR Win32) \<or> pattern ! i = SLASH) \<or> i + 1 = length pattern"
          using sep(1) by blast
        show "\<not> ?g" using sep(2) .
        show "glob_fragment_loop pattern (i + 1) ?g curr_sep (int i) = (True, p', c')"
          using "1.prems"(1) step by simp
        show "?g = (\<exists>j<i + 1. int i < int j \<and> ?G j)"
          using sep(2) by auto
        show "\<forall>j<i + 1. int j \<le> int i \<longrightarrow> \<not> ?G j" by (rule none_upto)
        show "int i < int (i + 1)" by simp
        show "?g \<longrightarrow> i + 1 < length pattern" using sep(2) by simp
        show "i + 1 \<le> length pattern" using True by simp
      qed
      then show ?thesis .
    next
      case go
      then have step: "glob_fragment_loop pattern i is_glob prev_sep curr_sep =
                 glob_fragment_loop pattern (i + 1) ?g prev_sep curr_sep"
        using True by (subst glob_fragment_loop.simps) (auto simp: Let_def)
      have "(\<forall>j<length pattern. int j \<le> p' \<longrightarrow> \<not> ?G j) \<and>
         p' < c' \<and> c' < int (length pattern) \<and>
         (\<exists>j<length pattern. int j \<le> c' \<and> ?G j)"
      proof (rule "1.IH"(2) [OF True refl refl refl])
        show "\<not> ((pattern ! i = hd (PATH_SEPARATOR Win32) \<or> pattern ! i = SLASH) \<or>
                  i + 1 = length pattern)"
          using go by blast
        show "glob_fragment_loop pattern (i + 1) ?g prev_sep curr_sep = (True, p', c')"
          using "1.prems"(1) step by simp
        show "?g = (\<exists>j<i + 1. curr_sep < int j \<and> ?G j)" by (rule g_iff)
        show "\<forall>j<i + 1. int j \<le> curr_sep \<longrightarrow> \<not> ?G j"
          using "1.prems"(3,4) by auto
        show "curr_sep < int (i + 1)" using "1.prems"(4) by simp
        show "?g \<longrightarrow> i + 1 < length pattern" using go True by auto
        show "i + 1 \<le> length pattern" using True by simp
      qed
      then show ?thesis .
    qed
  qed
qed


lemma unglob_foreach_results:
  "set (unglob_foreach env pattern curr_sep path_until_glob filenames results) \<subseteq>
     set results \<union> (\<lambda>filename. path_until_glob @ PATH_SEPARATOR Win32 @ filename) ` set filenames"
proof (induction filenames arbitrary: results)
  case Nil
  show ?case by simp
next
  case (Cons f fs)
  show ?case
    using Cons.IH [of "results @ [path_until_glob @ PATH_SEPARATOR Win32 @ f]"] Cons.IH [of results]
    by (auto simp: Let_def)
qed

lemma unglob_win32_results:
  assumes "unglob_win32 env pattern prev_sep curr_sep = Some paths" "path \<in> set paths"
  shows "\<exists>filenames filename.
           tor_listdir env (take (nat (if prev_sep < 1 then prev_sep + 1 else prev_sep)) pattern) =
             Some filenames \<and> filename \<in> set filenames \<and>
           path = take (nat (if prev_sep < 1 then prev_sep + 1 else prev_sep)) pattern @
                    PATH_SEPARATOR Win32 @ filename"
proof -
  let ?pre = "take (nat (if prev_sep < 1 then prev_sep + 1 else prev_sep)) pattern"
  from assms obtain filenames where
    l: "tor_listdir env ?pre = Some filenames" and
    p: "paths = unglob_foreach env pattern curr_sep ?pre filenames []"
    by (auto simp: unglob_win32_def Let_def split: if_splits option.splits)
  from assms(2) p unglob_foreach_results [of env pattern curr_sep ?pre filenames "[]"]
  obtain filename where "filename \<in> set filenames" "path = ?pre @ PATH_SEPARATOR Win32 @ filename"
    by auto
  with l show ?thesis by blast
qed

lemma glob_foreach_returns:
  assumes "\<forall>p\<in>set paths. recurse (p @ PATH_SEPARATOR Win32 @ rest) \<noteq> OutOfFuel"
  shows "glob_foreach recurse rest paths acc \<noteq> OutOfFuel"
  using assms
proof (induction paths arbitrary: acc)
  case Nil
  show ?case by simp
next
  case (Cons p ps)
  from Cons.prems have ret: "recurse (p @ PATH_SEPARATOR Win32 @ rest) \<noteq> OutOfFuel"
    and rest: "\<forall>p\<in>set ps. recurse (p @ PATH_SEPARATOR Win32 @ rest) \<noteq> OutOfFuel"
    by simp_all
  show ?case
  proof (cases "recurse (p @ PATH_SEPARATOR Win32 @ rest)")
    case OutOfFuel
    with ret show ?thesis by simp
  next
    case (Returns r)
    with Cons.IH [OF rest] show ?thesis by (cases r) simp_all
  qed
qed

lemma tor_glob_win32_returns:
  assumes names: "\<And>path filenames filename.
      tor_listdir env path = Some filenames \<Longrightarrow> filename \<in> set filenames \<Longrightarrow>
      \<not> has_glob Win32 filename"
  shows "glob_count pattern < fuel \<Longrightarrow> tor_glob_win32 fuel env pattern \<noteq> OutOfFuel"
proof (induction fuel arbitrary: pattern)
  case 0
  then show ?case by simp
next
  case (Suc n)
  obtain g p c where s: "glob_fragment_loop pattern 0 False (- 1) (- 1) = (g, p, c)"
    by (metis prod_cases3)
  show ?case
  proof (cases g)
    case False
    with s show ?thesis by (simp split: prod.splits)
  next
    case True
    with s have s': "glob_fragment_loop pattern 0 False (- 1) (- 1) = (True, p, c)" by simp
    have inv: "(\<forall>j<length pattern. int j \<le> p \<longrightarrow> \<not> IS_GLOB_CHAR Win32 pattern j) \<and>
         p < c \<and> c < int (length pattern) \<and>
         (\<exists>j<length pattern. int j \<le> c \<and> IS_GLOB_CHAR Win32 pattern j)"
      by (rule glob_fragment_loop_break [OF s']) simp_all
    let ?len = "nat (if p < 1 then p + 1 else p)"
    let ?rest = "drop (nat (c + 1)) pattern"
    have pre0: "glob_count (take ?len pattern) = 0"
    proof (rule glob_count_take_0, intro allI impI)
      fix j assume "j < ?len" "j < length pattern"
      then have "int j \<le> p" by (auto split: if_splits)
      with inv \<open>j < length pattern\<close> show "\<not> IS_GLOB_CHAR Win32 pattern j" by blast
    qed
    from inv obtain j where j: "j < length pattern" "int j \<le> c" "IS_GLOB_CHAR Win32 pattern j"
      by blast
    then have "j < nat (c + 1)" by simp
    from glob_count_drop_less [OF this j(1,3)] have less: "glob_count ?rest < glob_count pattern" .
    show ?thesis
    proof (cases "unglob_win32 env pattern p c")
      case None
      with s' show ?thesis by simp
    next
      case (Some paths)
      have "tor_glob_win32 n env (path @ PATH_SEPARATOR Win32 @ ?rest) \<noteq> OutOfFuel"
        if "path \<in> set paths" for path
      proof -
        from unglob_win32_results [OF Some that] obtain filenames filename where
          f: "tor_listdir env (take ?len pattern) = Some filenames" "filename \<in> set filenames"
            "path = take ?len pattern @ PATH_SEPARATOR Win32 @ filename"
          by blast
        from names [OF f(1,2)] have "glob_count filename = 0" by (simp add: glob_count_0_iff)
        with f(3) pre0 have "glob_count (path @ PATH_SEPARATOR Win32 @ ?rest) = glob_count ?rest"
          by simp
        with less Suc.prems have "glob_count (path @ PATH_SEPARATOR Win32 @ ?rest) < n" by simp
        from Suc.IH [OF this] show ?thesis .
      qed
      then have "glob_foreach (tor_glob_win32 n env) ?rest paths [] \<noteq> OutOfFuel"
        by (intro glob_foreach_returns) blast
      with Some show ?thesis
        unfolding tor_glob_win32_glob [OF s']
        by (auto split: fuelled.splits)
    qed
  qed
qed

subsection \<open>The traced functions\<close>

lemma status_paths_append [simp]:
  "status_paths (a @ b) = status_paths a @ status_paths b"
  by (induction a rule: status_paths.induct) simp_all

lemma unglob_foreach_io_eq:
  "unglob_foreach_io env pattern curr_sep pug filenames results =
   (unglob_foreach env pattern curr_sep pug filenames results,
    map (\<lambda>filename. Status_entry (pug @ PATH_SEPARATOR Win32 @ filename)) filenames)"
  by (induction filenames arbitrary: results) (simp_all add: Let_def)

lemma unglob_win32_io_eq:
  "unglob_win32_io env pattern prev_sep curr_sep =
   (unglob_win32 env pattern prev_sep curr_sep,
    (let pug = take (nat (if prev_sep < 1 then prev_sep + 1 else prev_sep)) pattern in
     if is_file env (file_status env pug) then [Status_prefix pug]
     else case tor_listdir env pug of
            None \<Rightarrow> [Status_prefix pug, Listdir pug]
          | Some filenames \<Rightarrow>
              [Status_prefix pug, Listdir pug] @
              map (\<lambda>filename. Status_entry (pug @ PATH_SEPARATOR Win32 @ filename)) filenames))"
  by (simp add: unglob_win32_io_def unglob_win32_def Let_def unglob_foreach_io_eq
      split: option.splits)

lemma add_non_glob_path_io_eq:
  "add_non_glob_path_io plat env path results =
   (add_non_glob_path plat env path results, [Status_path path])"
  by (simp add: add_non_glob_path_io_def add_non_glob_path_def Let_def)

lemma status_paths_entries [simp]:
  "status_paths (map (\<lambda>filename. Status_entry (f filename)) filenames) = []"
  by (induction filenames) simp_all

lemma failed_call_entries [simp]:
  "(\<exists>c\<in>set (map (\<lambda>filename. Status_entry (f filename)) filenames). failed_call env c) = False"
  by (induction filenames) simp_all

lemma unglob_win32_io_trace:
  assumes "unglob_win32_io env pattern prev_sep curr_sep = (r, calls)"
  shows "status_paths calls = []"
    and "(\<exists>c\<in>set calls. failed_call env c) \<longleftrightarrow> r = None"
    and "r = unglob_win32 env pattern prev_sep curr_sep"
  using assms unfolding unglob_win32_io_eq
  by (auto simp: Let_def unglob_win32_def split: if_splits option.splits)


lemma found_paths_append [simp]:
  "found_paths env (a @ b) = found_paths env a @ found_paths env b"
  by (simp add: found_paths_def)

lemma found_paths_no_status [simp]: "status_paths calls = [] \<Longrightarrow> found_paths env calls = []"
  by (simp add: found_paths_def)

lemma glob_foreach_io_fst:
  assumes "\<And>q. fst (recurse q) = recurse' q"
  shows "fst (glob_foreach_io recurse rest paths acc) = glob_foreach recurse' rest paths acc"
proof (induction paths arbitrary: acc)
  case Nil
  show ?case by simp
next
  case (Cons p ps)
  obtain r calls where rc: "recurse (p @ PATH_SEPARATOR Win32 @ rest) = (r, calls)"
    by (cases "recurse (p @ PATH_SEPARATOR Win32 @ rest)")
  with assms [of "p @ PATH_SEPARATOR Win32 @ rest"]
  have r': "recurse' (p @ PATH_SEPARATOR Win32 @ rest) = r" by simp
  show ?case
  proof (cases r)
    case OutOfFuel
    with rc r' show ?thesis by simp
  next
    case (Returns x)
    show ?thesis
    proof (cases x)
      case None
      with Returns rc r' show ?thesis by simp
    next
      case (Some l)
      with Returns rc r' Cons.IH [of "acc @ l"] show ?thesis
        by (cases "glob_foreach_io recurse rest ps (acc @ l)") simp
    qed
  qed
qed

lemma glob_foreach_io_trace:
  assumes err: "\<And>q r calls. recurse q = (Returns r, calls) \<Longrightarrow>
                  (r = None \<longleftrightarrow> (\<exists>c\<in>set calls. failed_call env c))"
    and res: "\<And>q ms calls. recurse q = (Returns (Some ms), calls) \<Longrightarrow>
                  ms = found_paths env calls"
    and run: "glob_foreach_io recurse rest paths acc = (Returns (error_found, results), calls)"
  shows "(error_found \<longleftrightarrow> (\<exists>c\<in>set calls. failed_call env c)) \<and>
         (\<not> error_found \<longrightarrow> results = acc @ found_paths env calls)"
  using run
proof (induction paths arbitrary: acc calls)
  case Nil
  then show ?case by simp
next
  case (Cons p ps)
  obtain r c1 where rc: "recurse (p @ PATH_SEPARATOR Win32 @ rest) = (r, c1)"
    by (cases "recurse (p @ PATH_SEPARATOR Win32 @ rest)")
  show ?case
  proof (cases r)
    case OutOfFuel
    with rc Cons.prems show ?thesis by simp
  next
    case (Returns x)
    show ?thesis
    proof (cases x)
      case None
      with Returns rc Cons.prems have "error_found" "calls = c1" by simp_all
      moreover from err [of "p @ PATH_SEPARATOR Win32 @ rest" None c1] rc Returns None
      have "\<exists>c\<in>set c1. failed_call env c" by simp
      ultimately show ?thesis by simp
    next
      case (Some l)
      obtain o2 c2 where rest_run: "glob_foreach_io recurse rest ps (acc @ l) = (o2, c2)"
        by (cases "glob_foreach_io recurse rest ps (acc @ l)")
      with Some Returns rc Cons.prems
      have o2: "o2 = Returns (error_found, results)" and calls: "calls = c1 @ c2"
        by simp_all
      from err [of "p @ PATH_SEPARATOR Win32 @ rest" "Some l" c1] rc Returns Some
      have nofail: "\<not> (\<exists>c\<in>set c1. failed_call env c)" by simp
      from res [of "p @ PATH_SEPARATOR Win32 @ rest" l c1] rc Returns Some
      have l: "l = found_paths env c1" by simp
      from Cons.IH [of "acc @ l" c2] rest_run o2
      have ih: "(error_found \<longleftrightarrow> (\<exists>c\<in>set c2. failed_call env c)) \<and>
         (\<not> error_found \<longrightarrow> results = (acc @ l) @ found_paths env c2)" by simp
      from ih nofail l calls show ?thesis by auto
    qed
  qed
qed

lemma tor_glob_win32_io_fst:
  "fst (tor_glob_win32_io fuel env pattern) = tor_glob_win32 fuel env pattern"
proof (induction fuel arbitrary: pattern)
  case 0
  show ?case by simp
next
  case (Suc n)
  obtain g p c where s: "glob_fragment_loop pattern 0 False (- 1) (- 1) = (g, p, c)"
    by (metis prod_cases3)
  show ?case
  proof (cases g)
    case False
    with s show ?thesis by (simp add: add_non_glob_path_io_eq split: prod.splits)
  next
    case True
    show ?thesis
    proof (cases "unglob_win32 env pattern p c")
      case None
      with s True show ?thesis by (simp add: unglob_win32_io_eq)
    next
      case (Some paths)
      have "fst (glob_foreach_io (tor_glob_win32_io n env) (drop (nat (c + 1)) pattern) paths []) =
            glob_foreach (tor_glob_win32 n env) (drop (nat (c + 1)) pattern) paths []"
        by (rule glob_foreach_io_fst) (rule Suc.IH)
      with s True Some show ?thesis
        by (cases "glob_foreach_io (tor_glob_win32_io n env) (drop (nat (c + 1)) pattern) paths []")
          (auto simp: unglob_win32_io_eq split: fuelled.splits)
    qed
  qed
qed

lemma tor_glob_win32_io_trace:
  "tor_glob_win32_io fuel env pattern = (Returns r, calls) \<Longrightarrow>
   (r = None \<longleftrightarrow> (\<exists>c\<in>set calls. failed_call env c)) \<and>
   (\<forall>ms. r = Some ms \<longrightarrow> ms = found_paths env calls)"
proof (induction fuel arbitrary: pattern r calls)
  case 0
  then show ?case by simp
next
  case (Suc n)
  obtain g p c where s: "glob_fragment_loop pattern 0 False (- 1) (- 1) = (g, p, c)"
    by (metis prod_cases3)
  show ?case
  proof (cases g)
    case False
    with s Suc.prems show ?thesis
      by (auto simp: add_non_glob_path_io_eq add_non_glob_path_def Let_def found_paths_def
          split: if_splits)
  next
    case True
    obtain u c0 where u: "unglob_win32_io env pattern p c = (u, c0)"
      by (cases "unglob_win32_io env pattern p c")
    note tr = unglob_win32_io_trace [OF u]
    show ?thesis
    proof (cases u)
      case None
      with s True u Suc.prems have "r = None" "calls = c0" by simp_all
      with tr(2) None show ?thesis by simp
    next
      case (Some paths)
      obtain o1 c1 where f: "glob_foreach_io (tor_glob_win32_io n env)
          (drop (nat (c + 1)) pattern) paths [] = (o1, c1)"
        by (cases "glob_foreach_io (tor_glob_win32_io n env) (drop (nat (c + 1)) pattern) paths []")
      from s True u Some f Suc.prems obtain e res where
        o1: "o1 = Returns (e, res)" and r: "r = (if e then None else Some res)"
        and calls: "calls = c0 @ c1"
        by (cases o1) (auto split: prod.splits)
      have ih1: "\<And>q r calls. tor_glob_win32_io n env q = (Returns r, calls) \<Longrightarrow>
                  (r = None \<longleftrightarrow> (\<exists>c\<in>set calls. failed_call env c))"
        using Suc.IH by blast
      have ih2: "\<And>q ms calls. tor_glob_win32_io n env q = (Returns (Some ms), calls) \<Longrightarrow>
                  ms = found_paths env calls"
        using Suc.IH by blast
      from f o1 have run: "glob_foreach_io (tor_glob_win32_io n env)
          (drop (nat (c + 1)) pattern) paths [] = (Returns (e, res), c1)" by simp
      from glob_foreach_io_trace [OF ih1 ih2 run]
      have t: "(e \<longleftrightarrow> (\<exists>c\<in>set c1. failed_call env c)) \<and>
               (\<not> e \<longrightarrow> res = [] @ found_paths env c1)" by simp
      from tr(2) Some have nf: "\<not> (\<exists>c\<in>set c0. failed_call env c)" by simp
      from t nf r calls tr(1) show ?thesis by auto
    qed
  qed
qed


lemma glob_foreach_io_status_paths:
  assumes "\<And>q outcome calls. recurse q = (outcome, calls) \<Longrightarrow>
             \<forall>p\<in>set (status_paths calls). \<not> has_glob Win32 p"
    and "glob_foreach_io recurse rest paths acc = (outcome, calls)"
  shows "\<forall>p\<in>set (status_paths calls). \<not> has_glob Win32 p"
  using assms(2)
proof (induction paths arbitrary: acc calls outcome)
  case Nil
  then show ?case by simp
next
  case (Cons p ps)
  obtain r c1 where rc: "recurse (p @ PATH_SEPARATOR Win32 @ rest) = (r, c1)"
    by (cases "recurse (p @ PATH_SEPARATOR Win32 @ rest)")
  note c1 = assms(1) [OF rc]
  show ?case
  proof (cases r)
    case OutOfFuel
    with rc Cons.prems c1 show ?thesis by simp
  next
    case (Returns x)
    show ?thesis
    proof (cases x)
      case None
      with Returns rc Cons.prems c1 show ?thesis by simp
    next
      case (Some l)
      obtain o2 c2 where rest_run: "glob_foreach_io recurse rest ps (acc @ l) = (o2, c2)"
        by (cases "glob_foreach_io recurse rest ps (acc @ l)")
      with Some Returns rc Cons.prems have calls: "calls = c1 @ c2" by simp
      from Cons.IH [OF rest_run] c1 calls show ?thesis by auto
    qed
  qed
qed

lemma tor_glob_win32_io_status_paths:
  "tor_glob_win32_io fuel env pattern = (outcome, calls) \<Longrightarrow>
   \<forall>p\<in>set (status_paths calls). \<not> has_glob Win32 p"
proof (induction fuel arbitrary: pattern outcome calls)
  case 0
  then show ?case by simp
next
  case (Suc n)
  obtain g p c where s: "glob_fragment_loop pattern 0 False (- 1) (- 1) = (g, p, c)"
    by (metis prod_cases3)
  show ?case
  proof (cases g)
    case False
    with s glob_fragment_loop_has_glob [of pattern "- 1" "- 1"]
    have "\<not> has_glob Win32 pattern" by simp
    with False s Suc.prems show ?thesis
      by (auto simp: add_non_glob_path_io_eq split: prod.splits)
  next
    case True
    obtain u c0 where u: "unglob_win32_io env pattern p c = (u, c0)"
      by (cases "unglob_win32_io env pattern p c")
    note tr = unglob_win32_io_trace [OF u]
    show ?thesis
    proof (cases u)
      case None
      with s True u Suc.prems have "calls = c0" by simp
      with tr(1) show ?thesis by simp
    next
      case (Some paths)
      obtain o1 c1 where f: "glob_foreach_io (tor_glob_win32_io n env)
          (drop (nat (c + 1)) pattern) paths [] = (o1, c1)"
        by (cases "glob_foreach_io (tor_glob_win32_io n env) (drop (nat (c + 1)) pattern) paths []")
      from s True u Some f Suc.prems have calls: "calls = c0 @ c1"
        by (cases o1) (auto split: prod.splits)
      have "\<forall>p\<in>set (status_paths c1). \<not> has_glob Win32 p"
        by (rule glob_foreach_io_status_paths [OF _ f]) (rule Suc.IH)
      with calls tr(1) show ?thesis by simp
    qed
  qed
qed

lemma tor_glob_win32_io_non_glob:
  assumes "\<not> has_glob Win32 pattern"
  shows "tor_glob_win32_io (Suc fuel) env pattern =
     (Returns (if file_status env pattern = FN_ERROR then None
               else if file_status env pattern = FN_NOENT then Some []
               else Some [clean_fname_for_stat Win32 pattern]),
      [Status_path pattern])"
proof -
  obtain g p c where s: "glob_fragment_loop pattern 0 False (- 1) (- 1) = (g, p, c)"
    by (metis prod_cases3)
  with glob_fragment_loop_has_glob [of pattern "- 1" "- 1"] assms have "\<not> g" by simp
  with s show ?thesis
    by (simp add: add_non_glob_path_io_eq add_non_glob_path_def Let_def)
qed

lemma found_paths_elements:
  assumes "m \<in> set (found_paths env calls)"
  shows "\<exists>q\<in>set (status_paths calls). file_status env q \<noteq> FN_ERROR \<and>
           file_status env q \<noteq> FN_NOENT \<and> m = clean_fname_for_stat Win32 q"
  using assms by (auto simp: found_paths_def)

lemma tor_glob_win32_io_returns:
  "tor_glob_win32 fuel env pattern = Returns r \<Longrightarrow>
   \<exists>calls. tor_glob_win32_io fuel env pattern = (Returns r, calls)"
  using tor_glob_win32_io_fst [of fuel env pattern]
  by (cases "tor_glob_win32_io fuel env pattern") simp

lemma status_paths_set: "p \<in> set (status_paths calls) \<longleftrightarrow> Status_path p \<in> set calls"
  by (induction calls rule: status_paths.induct) auto

lemma found_paths_empty_iff:
  assumes "\<not> (\<exists>c\<in>set calls. failed_call env c)"
  shows "found_paths env calls = [] \<longleftrightarrow>
         (\<forall>q\<in>set (status_paths calls). file_status env q = FN_NOENT)"
proof -
  have "file_status env q \<noteq> FN_ERROR" if "q \<in> set (status_paths calls)" for q
  proof
    assume e: "file_status env q = FN_ERROR"
    from that have "Status_path q \<in> set calls" by (simp add: status_paths_set)
    moreover from e have "failed_call env (Status_path q)" by simp
    ultimately show False using assms by blast
  qed
  then show ?thesis
    by (auto simp: found_paths_def filter_empty_conv)
qed

lemma clean_trailing_separator:
  assumes "m = clean_fname_for_stat Win32 q" "m \<noteq> []" "is_sep Win32 (last m)"
  shows "length m = 1 \<or> (length m = 3 \<and> m ! 1 = COLON) \<or> (\<exists>c. is_sep Win32 c \<and> q = m @ [c])"
proof (cases "q \<noteq> [] \<and> is_sep Win32 (last q) \<and> length q \<noteq> 1 \<and>
         \<not> (length q = 3 \<and> q ! 1 = COLON)")
  case True
  have "clean_fname_for_stat Win32 q = butlast q"
    by (subst clean_fname_for_stat_Win32, rule if_P, rule True)
  with assms(1) have "m = butlast q" by simp
  with True have "q = m @ [last q]" by simp
  with True show ?thesis by blast
next
  case False
  have "clean_fname_for_stat Win32 q = q"
    by (subst clean_fname_for_stat_Win32, rule if_not_P, rule False)
  with assms(1) have "m = q" by simp
  with False assms(2,3) show ?thesis by auto
qed

lemma tor_glob_win32_result_elements:
  assumes "tor_glob_win32 fuel env pattern = Returns (Some ms)" "m \<in> set ms"
  shows "\<exists>q. \<not> has_glob Win32 q \<and> file_status env q \<noteq> FN_ERROR \<and>
             file_status env q \<noteq> FN_NOENT \<and> m = clean_fname_for_stat Win32 q"
proof -
  from tor_glob_win32_io_returns [OF assms(1)] obtain calls where
    io: "tor_glob_win32_io fuel env pattern = (Returns (Some ms), calls)" by blast
  from tor_glob_win32_io_trace [OF io] have "ms = found_paths env calls" by simp
  with assms(2) found_paths_elements [of m env calls] obtain q where
    q: "q \<in> set (status_paths calls)" "file_status env q \<noteq> FN_ERROR"
       "file_status env q \<noteq> FN_NOENT" "m = clean_fname_for_stat Win32 q"
    by blast
  from tor_glob_win32_io_status_paths [OF io] q(1) have "\<not> has_glob Win32 q" by blast
  with q show ?thesis by blast
qed

subsection \<open>All-or-nothing expansion\<close>

text \<open>
  The rollback.  Let the pattern have a glob fragment and let \<open>unglob_win32\<close> have
  returned the list \<open>paths\<close>.  If the recursive expansion of any of these paths returns
  the null pointer, the calls before it having returned, then \<open>tor_glob_win32\<close> returns
  the null pointer, whatever had been accumulated.  This holds in particular when the
  recursive call fails because the directory it has to enumerate cannot be listed.
  And a list is returned only when every recursive call returned a list, and it is the
  concatenation of all of them.
\<close>

lemma tor_glob_win32_rollback:
  assumes "glob_fragment_loop pattern 0 False (- 1) (- 1) = (True, prev_sep, curr_sep)"
    and "unglob_win32 env pattern prev_sep curr_sep = Some paths"
    and "rest = drop (nat (curr_sep + 1)) pattern"
  shows "((\<exists>k<length paths.
            tor_glob_win32 fuel env (paths ! k @ PATH_SEPARATOR Win32 @ rest) = Returns None \<and>
            (\<forall>j<k. tor_glob_win32 fuel env (paths ! j @ PATH_SEPARATOR Win32 @ rest) \<noteq>
                      OutOfFuel)) \<longrightarrow>
          tor_glob_win32 (Suc fuel) env pattern = Returns None) \<and>
         (\<forall>k<length paths. \<forall>p c.
            glob_fragment_loop (paths ! k @ PATH_SEPARATOR Win32 @ rest) 0 False (- 1) (- 1) =
              (True, p, c) \<and>
            unglob_win32 env (paths ! k @ PATH_SEPARATOR Win32 @ rest) p c = None \<and>
            (\<forall>j<k. tor_glob_win32 (Suc fuel) env (paths ! j @ PATH_SEPARATOR Win32 @ rest) \<noteq>
                      OutOfFuel) \<longrightarrow>
            tor_glob_win32 (Suc (Suc fuel)) env pattern = Returns None) \<and>
         (\<forall>results. tor_glob_win32 (Suc fuel) env pattern = Returns (Some results) \<longrightarrow>
            (\<forall>p\<in>set paths. \<exists>r. tor_glob_win32 fuel env (p @ PATH_SEPARATOR Win32 @ rest) =
                      Returns (Some r)) \<and>
            results = concat (map (\<lambda>p. sub_matches
                        (tor_glob_win32 fuel env (p @ PATH_SEPARATOR Win32 @ rest))) paths))"
proof -
  have unfold: "tor_glob_win32 (Suc n) env pattern =
      (case glob_foreach (tor_glob_win32 n env) rest paths [] of
         OutOfFuel \<Rightarrow> OutOfFuel
       | Returns (error_found, results) \<Rightarrow>
           Returns (if error_found then None else Some results))" for n
    using tor_glob_win32_glob [OF assms(1), of n env] assms(2,3) by simp
  have err: "tor_glob_win32 (Suc n) env pattern = Returns None"
    if "k < length paths"
      "tor_glob_win32 n env (paths ! k @ PATH_SEPARATOR Win32 @ rest) = Returns None"
      "\<forall>j<k. tor_glob_win32 n env (paths ! j @ PATH_SEPARATOR Win32 @ rest) \<noteq> OutOfFuel"
    for k n
  proof -
    from glob_foreach_any_error [OF that, of "[]"] obtain results where
      "glob_foreach (tor_glob_win32 n env) rest paths [] = Returns (True, results)" by blast
    then show ?thesis unfolding unfold by simp
  qed
  have first: "(\<exists>k<length paths.
            tor_glob_win32 fuel env (paths ! k @ PATH_SEPARATOR Win32 @ rest) = Returns None \<and>
            (\<forall>j<k. tor_glob_win32 fuel env (paths ! j @ PATH_SEPARATOR Win32 @ rest) \<noteq>
                      OutOfFuel)) \<longrightarrow>
          tor_glob_win32 (Suc fuel) env pattern = Returns None"
    using err by blast
  have second: "tor_glob_win32 (Suc (Suc fuel)) env pattern = Returns None"
    if "k < length paths"
      "glob_fragment_loop (paths ! k @ PATH_SEPARATOR Win32 @ rest) 0 False (- 1) (- 1) =
              (True, p, c)"
      "unglob_win32 env (paths ! k @ PATH_SEPARATOR Win32 @ rest) p c = None"
      "\<forall>j<k. tor_glob_win32 (Suc fuel) env (paths ! j @ PATH_SEPARATOR Win32 @ rest) \<noteq>
                      OutOfFuel" for k p c
  proof -
    have "tor_glob_win32 (Suc fuel) env (paths ! k @ PATH_SEPARATOR Win32 @ rest) = Returns None"
      using tor_glob_win32_glob [OF that(2), of fuel env] that(3) by simp
    from err [OF that(1) this that(4)] show ?thesis .
  qed
  have third: "(\<forall>p\<in>set paths. \<exists>r. tor_glob_win32 fuel env (p @ PATH_SEPARATOR Win32 @ rest) =
                      Returns (Some r)) \<and>
            results = concat (map (\<lambda>p. sub_matches
                        (tor_glob_win32 fuel env (p @ PATH_SEPARATOR Win32 @ rest))) paths)"
    if "tor_glob_win32 (Suc fuel) env pattern = Returns (Some results)" for results
  proof -
    from that have "glob_foreach (tor_glob_win32 fuel env) rest paths [] = Returns (False, results)"
      unfolding unfold by (auto split: fuelled.splits if_splits)
    from glob_foreach_success [OF this] show ?thesis by simp
  qed
  from first second third show ?thesis by blast
qed

text \<open>The rollback on the example filesystem: \<open>d\<close> holds \<open>x\<close>, which expands to one
  match, and \<open>y\<close>, which cannot be listed; the expansion of the whole pattern is the
  null pointer.\<close>

lemma tor_glob_win32_rollback_example:
  "tor_glob_win32 (Suc 2) example_fs [CHR ''d'', BSLASH, STAR, BSLASH, STAR] = Returns None \<and>
   tor_glob_win32 2 example_fs [CHR ''d'', BSLASH, CHR ''x'', BSLASH, STAR] =
     Returns (Some [[CHR ''d'', BSLASH, CHR ''x'', BSLASH, CHR ''f'']]) \<and>
   tor_glob_win32 2 example_fs [CHR ''d'', BSLASH, CHR ''y'', BSLASH, STAR] = Returns None \<and>
   tor_listdir example_fs [CHR ''d'', BSLASH, CHR ''y''] = None"
proof -
  let ?P = "[CHR ''d'', BSLASH, STAR, BSLASH, STAR]"
  let ?dx = "[CHR ''d'', BSLASH, CHR ''x'']"
  let ?dy = "[CHR ''d'', BSLASH, CHR ''y'']"
  have scan: "glob_fragment_loop ?P 0 False (- 1) (- 1) = (True, 1, 3)"
    by code_simp
  have un: "unglob_win32 example_fs ?P 1 3 = Some [?dx, ?dy]"
    by code_simp
  have rest: "[STAR] = drop (nat (3 + 1)) ?P"
    by simp
  have sx: "tor_glob_win32 2 example_fs (?dx @ PATH_SEPARATOR Win32 @ [STAR]) =
      Returns (Some [[CHR ''d'', BSLASH, CHR ''x'', BSLASH, CHR ''f'']])"
    by code_simp
  have sy: "tor_glob_win32 2 example_fs (?dy @ PATH_SEPARATOR Win32 @ [STAR]) = Returns None"
    by code_simp
  have ly: "tor_listdir example_fs ?dy = None"
    by code_simp
  have pre: "\<exists>k<length [?dx, ?dy].
      tor_glob_win32 2 example_fs ([?dx, ?dy] ! k @ PATH_SEPARATOR Win32 @ [STAR]) = Returns None \<and>
      (\<forall>j<k. tor_glob_win32 2 example_fs ([?dx, ?dy] ! j @ PATH_SEPARATOR Win32 @ [STAR]) \<noteq>
                OutOfFuel)"
  proof (intro exI [of _ 1] conjI allI impI)
    show "1 < length [?dx, ?dy]" by simp
    show "tor_glob_win32 2 example_fs ([?dx, ?dy] ! 1 @ PATH_SEPARATOR Win32 @ [STAR]) = Returns None"
      using sy by simp
    fix j :: nat assume "j < 1"
    then have "j = 0" by simp
    with sx show "tor_glob_win32 2 example_fs ([?dx, ?dy] ! j @ PATH_SEPARATOR Win32 @ [STAR]) \<noteq>
                OutOfFuel" by simp
  qed
  from tor_glob_win32_rollback [OF scan un rest, of 2] pre
  have "tor_glob_win32 (Suc 2) example_fs ?P = Returns None" by blast
  with sx sy ly show ?thesis by (simp add: PATH_SEPARATOR_def)
qed


subsection \<open>No match and failure\<close>

text \<open>
  Claim C2, as stated, says that a pattern that matches no existing path yields an
  empty list and not an error.  When the directory before a glob fragment is merely
  missing, its status being \<open>FN_NOENT\<close>, its enumeration fails and the result is the
  null pointer: so for \<open>d/x/q/*\<close>, where \<open>d/x\<close> holds no \<open>q\<close>.
\<close>

theorem missing_directory_is_not_zero_matches_counterexample:
  "file_status example_fs [CHR ''d'', BSLASH, CHR ''x'', BSLASH, CHR ''q''] = FN_NOENT \<and>
   tor_listdir example_fs [CHR ''d'', BSLASH, CHR ''x'', BSLASH, CHR ''q''] = None \<and>
   tor_glob_windows (Suc 0) example_fs ''d/x/q/*'' = Returns None \<and>
   tor_glob_win32_io (Suc 0) example_fs [CHR ''d'', BSLASH, CHR ''x'', BSLASH, CHR ''q'', BSLASH, STAR] =
     (Returns None,
      [Status_prefix [CHR ''d'', BSLASH, CHR ''x'', BSLASH, CHR ''q''],
       Listdir [CHR ''d'', BSLASH, CHR ''x'', BSLASH, CHR ''q'']])"
  by code_simp

text \<open>
  Claim C2, amended.  In the native backend the outcome \<open>GLOB_NOMATCH\<close> of the
  facility gives a fresh empty list, every other nonzero outcome gives the null
  pointer, and the null pointer is returned for no other reason.  In the manual
  backend the null pointer is returned exactly when one of the calls that the
  expansion makes is a \<open>tor_listdir\<close> that fails, the listing of a missing directory
  before a glob fragment included, or a status query of \<open>add_non_glob_path\<close> that
  answers \<open>FN_ERROR\<close>.  Otherwise the result is the list of the paths that these
  status queries found to exist, and it is empty exactly when every one of them
  answered \<open>FN_NOENT\<close>.  The traced function returns what the plain one returns,
  and the call does return: when no directory entry holds a metacharacter, fuel
  beyond the number of metacharacters of the pattern is enough.
\<close>

theorem glob_no_match_is_not_failure:
  "(fst (glob genv pattern) = GLOB_NOMATCH genv \<longrightarrow> tor_glob_native genv pattern = Some []) \<and>
   (fst (glob genv pattern) \<noteq> GLOB_NOMATCH genv \<and> fst (glob genv pattern) \<noteq> 0 \<longrightarrow>
      tor_glob_native genv pattern = None) \<and>
   (tor_glob_native genv pattern = None \<longrightarrow>
      fst (glob genv pattern) \<noteq> 0 \<and> fst (glob genv pattern) \<noteq> GLOB_NOMATCH genv) \<and>
   (\<forall>r calls. tor_glob_win32_io fuel env wpattern = (Returns r, calls) \<or>
              tor_glob_windows_io fuel env wpattern = (Returns r, calls) \<longrightarrow>
      (r = None \<longleftrightarrow> (\<exists>c\<in>set calls. failed_call env c)) \<and>
      (\<forall>ms. r = Some ms \<longrightarrow>
         ms = found_paths env calls \<and>
         (ms = [] \<longleftrightarrow> (\<forall>q\<in>set (status_paths calls). file_status env q = FN_NOENT)))) \<and>
   fst (tor_glob_win32_io fuel env wpattern) = tor_glob_win32 fuel env wpattern \<and>
   fst (tor_glob_windows_io fuel env wpattern) = tor_glob_windows fuel env wpattern \<and>
   (\<not> has_glob Win32 wpattern \<and> file_status env wpattern = FN_NOENT \<longrightarrow>
      tor_glob_win32 (Suc fuel) env wpattern = Returns (Some [])) \<and>
   (\<not> has_glob Win32 wpattern \<and> file_status env wpattern = FN_ERROR \<longrightarrow>
      tor_glob_win32 (Suc fuel) env wpattern = Returns None) \<and>
   (\<forall>p c paths. glob_fragment_loop wpattern 0 False (- 1) (- 1) = (True, p, c) \<and>
      unglob_win32 env wpattern p c = Some paths \<and>
      (\<forall>path\<in>set paths.
         tor_glob_win32 fuel env (path @ PATH_SEPARATOR Win32 @ drop (nat (c + 1)) wpattern) =
           Returns (Some [])) \<longrightarrow>
      tor_glob_win32 (Suc fuel) env wpattern = Returns (Some [])) \<and>
   ((\<forall>path filenames. tor_listdir env path = Some filenames \<longrightarrow>
        (\<forall>filename\<in>set filenames. \<not> has_glob Win32 filename)) \<longrightarrow>
      (\<exists>r calls. tor_glob_win32_io (Suc (glob_count wpattern)) env wpattern = (Returns r, calls)))"
proof -
  obtain ret pathv where g: "glob genv pattern = (ret, pathv)" by (cases "glob genv pattern")
  have n1: "fst (glob genv pattern) = GLOB_NOMATCH genv \<longrightarrow> tor_glob_native genv pattern = Some []"
    using g by (simp add: tor_glob_native_def)
  have n2: "fst (glob genv pattern) \<noteq> GLOB_NOMATCH genv \<and> fst (glob genv pattern) \<noteq> 0 \<longrightarrow>
      tor_glob_native genv pattern = None"
    using g by (simp add: tor_glob_native_def)
  have n3: "tor_glob_native genv pattern = None \<longrightarrow>
      fst (glob genv pattern) \<noteq> 0 \<and> fst (glob genv pattern) \<noteq> GLOB_NOMATCH genv"
    using g by (auto simp: tor_glob_native_def split: if_splits)
  have tr: "(r = None \<longleftrightarrow> (\<exists>c\<in>set calls. failed_call env c)) \<and>
      (\<forall>ms. r = Some ms \<longrightarrow>
         ms = found_paths env calls \<and>
         (ms = [] \<longleftrightarrow> (\<forall>q\<in>set (status_paths calls). file_status env q = FN_NOENT)))"
    if "tor_glob_win32_io n env q = (Returns r, calls)" for n q r calls
  proof -
    note t = tor_glob_win32_io_trace [OF that]
    have "ms = [] \<longleftrightarrow> (\<forall>q\<in>set (status_paths calls). file_status env q = FN_NOENT)"
      if ms: "r = Some ms" for ms
    proof -
      from t ms have nf: "\<not> (\<exists>c\<in>set calls. failed_call env c)" by simp
      from t ms have "ms = found_paths env calls" by simp
      with found_paths_empty_iff [OF nf] show ?thesis by simp
    qed
    with t show ?thesis by blast
  qed
  have a: "(r = None \<longleftrightarrow> (\<exists>c\<in>set calls. failed_call env c)) \<and>
      (\<forall>ms. r = Some ms \<longrightarrow>
         ms = found_paths env calls \<and>
         (ms = [] \<longleftrightarrow> (\<forall>q\<in>set (status_paths calls). file_status env q = FN_NOENT)))"
    if "tor_glob_win32_io fuel env wpattern = (Returns r, calls) \<or>
        tor_glob_windows_io fuel env wpattern = (Returns r, calls)" for r calls
    using that tr unfolding tor_glob_windows_io_def Let_def by blast
  have b1: "fst (tor_glob_win32_io fuel env wpattern) = tor_glob_win32 fuel env wpattern"
    by (rule tor_glob_win32_io_fst)
  have b2: "fst (tor_glob_windows_io fuel env wpattern) = tor_glob_windows fuel env wpattern"
    by (simp add: tor_glob_windows_io_def tor_glob_windows_def tor_glob_win32_io_fst)
  have m1: "\<not> has_glob Win32 wpattern \<and> file_status env wpattern = FN_NOENT \<longrightarrow>
      tor_glob_win32 (Suc fuel) env wpattern = Returns (Some [])"
    using tor_glob_win32_non_glob [of wpattern fuel env] by simp
  have m2: "\<not> has_glob Win32 wpattern \<and> file_status env wpattern = FN_ERROR \<longrightarrow>
      tor_glob_win32 (Suc fuel) env wpattern = Returns None"
    using tor_glob_win32_non_glob [of wpattern fuel env] by simp
  have m3: "tor_glob_win32 (Suc fuel) env wpattern = Returns (Some [])"
    if "glob_fragment_loop wpattern 0 False (- 1) (- 1) = (True, p, c)"
      "unglob_win32 env wpattern p c = Some paths"
      "\<forall>path\<in>set paths.
         tor_glob_win32 fuel env (path @ PATH_SEPARATOR Win32 @ drop (nat (c + 1)) wpattern) =
           Returns (Some [])" for p c paths
  proof -
    from that(3) have all: "\<forall>path\<in>set paths. \<exists>r.
         tor_glob_win32 fuel env (path @ PATH_SEPARATOR Win32 @ drop (nat (c + 1)) wpattern) =
           Returns (Some r)" by simp
    have "concat (map (\<lambda>path. sub_matches (tor_glob_win32 fuel env
             (path @ PATH_SEPARATOR Win32 @ drop (nat (c + 1)) wpattern))) paths) = []"
      using that(3) by (simp add: sub_matches_def)
    with glob_foreach_all_success [OF all, of "[]"]
    have "glob_foreach (tor_glob_win32 fuel env) (drop (nat (c + 1)) wpattern) paths [] =
          Returns (False, [])" by simp
    with tor_glob_win32_glob [OF that(1), of fuel env] that(2) show ?thesis by simp
  qed
  have m6: "\<exists>r calls. tor_glob_win32_io (Suc (glob_count wpattern)) env wpattern = (Returns r, calls)"
    if "\<forall>path filenames. tor_listdir env path = Some filenames \<longrightarrow>
        (\<forall>filename\<in>set filenames. \<not> has_glob Win32 filename)"
  proof -
    have "tor_glob_win32 (Suc (glob_count wpattern)) env wpattern \<noteq> OutOfFuel"
      using that by (intro tor_glob_win32_returns) auto
    then obtain r where "tor_glob_win32 (Suc (glob_count wpattern)) env wpattern = Returns r"
      by (cases "tor_glob_win32 (Suc (glob_count wpattern)) env wpattern") simp_all
    from tor_glob_win32_io_returns [OF this] show ?thesis by blast
  qed
  from n1 n2 n3 a b1 b2 m1 m2 m3 m6 show ?thesis by blast
qed


text \<open>No entry of the example filesystem holds a metacharacter.\<close>

lemma example_fs_names:
  "\<forall>path filenames. tor_listdir example_fs path = Some filenames \<longrightarrow>
        (\<forall>filename\<in>set filenames. \<not> has_glob Win32 filename)"
proof (intro allI impI ballI)
  fix path filenames filename
  assume "tor_listdir example_fs path = Some filenames" "filename \<in> set filenames"
  then have "filename = ''x'' \<or> filename = ''y'' \<or> filename = ''f''"
    by (auto simp: example_fs_def example_listdir_def split: if_splits)
  moreover have "\<not> has_glob Win32 ''x''" "\<not> has_glob Win32 ''y''" "\<not> has_glob Win32 ''f''"
    by (simp_all add: has_glob_def has_glob_loop.simps IS_GLOB_CHAR_def)
  ultimately show "\<not> has_glob Win32 filename" by auto
qed

text \<open>The theorem on the example facilities and the example filesystem: a failing
  listing, candidates that do not exist, and the cases without a candidate.\<close>

theorem glob_no_match_is_not_failure_witness:
  "tor_glob_native example_glob_nomatch ''*'' = Some [] \<and>
   tor_glob_native example_glob_aborted ''*'' = None \<and>
   tor_glob_win32_io (Suc 2) example_fs [CHR ''d'', BSLASH, STAR, BSLASH, STAR] =
     (Returns None,
      [Status_prefix ''d'', Listdir ''d'',
       Status_entry [CHR ''d'', BSLASH, CHR ''x''], Status_entry [CHR ''d'', BSLASH, CHR ''y''],
       Status_prefix [CHR ''d'', BSLASH, CHR ''x''], Listdir [CHR ''d'', BSLASH, CHR ''x''],
       Status_entry [CHR ''d'', BSLASH, CHR ''x'', BSLASH, CHR ''f''],
       Status_path [CHR ''d'', BSLASH, CHR ''x'', BSLASH, CHR ''f'', BSLASH],
       Status_prefix [CHR ''d'', BSLASH, CHR ''y''], Listdir [CHR ''d'', BSLASH, CHR ''y'']]) \<and>
   failed_call example_fs (Listdir [CHR ''d'', BSLASH, CHR ''y'']) \<and>
   tor_glob_win32_io (Suc 2) example_fs [CHR ''d'', BSLASH, STAR, BSLASH, CHR ''g''] =
     (Returns (Some []),
      [Status_prefix ''d'', Listdir ''d'',
       Status_entry [CHR ''d'', BSLASH, CHR ''x''], Status_entry [CHR ''d'', BSLASH, CHR ''y''],
       Status_path [CHR ''d'', BSLASH, CHR ''x'', BSLASH, CHR ''g''],
       Status_path [CHR ''d'', BSLASH, CHR ''y'', BSLASH, CHR ''g'']]) \<and>
   found_paths example_fs
     [Status_prefix ''d'', Listdir ''d'',
       Status_entry [CHR ''d'', BSLASH, CHR ''x''], Status_entry [CHR ''d'', BSLASH, CHR ''y''],
       Status_path [CHR ''d'', BSLASH, CHR ''x'', BSLASH, CHR ''g''],
       Status_path [CHR ''d'', BSLASH, CHR ''y'', BSLASH, CHR ''g'']] = [] \<and>
   file_status example_fs [CHR ''d'', BSLASH, CHR ''x'', BSLASH, CHR ''g''] = FN_NOENT \<and>
   file_status example_fs [CHR ''d'', BSLASH, CHR ''y'', BSLASH, CHR ''g''] = FN_NOENT \<and>
   tor_glob_win32 (Suc 0) example_fs ''n'' = Returns (Some []) \<and>
   tor_glob_win32 (Suc 0) example_fs [] = Returns None \<and>
   tor_glob_win32 (Suc 0) example_fs [CHR ''d'', BSLASH, CHR ''x'', BSLASH, CHR ''f'', BSLASH, STAR] =
     Returns (Some []) \<and>
   tor_glob_win32 (Suc (glob_count [CHR ''d'', BSLASH, STAR, BSLASH, STAR])) example_fs
     [CHR ''d'', BSLASH, STAR, BSLASH, STAR] \<noteq> OutOfFuel"
proof -
  let ?P = "[CHR ''d'', BSLASH, STAR, BSLASH, STAR]"
  let ?G = "[CHR ''d'', BSLASH, STAR, BSLASH, CHR ''g'']"
  let ?q = "[CHR ''d'', BSLASH, CHR ''x'', BSLASH, CHR ''f'', BSLASH, STAR]"
  let ?cP = "[Status_prefix ''d'', Listdir ''d'',
       Status_entry [CHR ''d'', BSLASH, CHR ''x''], Status_entry [CHR ''d'', BSLASH, CHR ''y''],
       Status_prefix [CHR ''d'', BSLASH, CHR ''x''], Listdir [CHR ''d'', BSLASH, CHR ''x''],
       Status_entry [CHR ''d'', BSLASH, CHR ''x'', BSLASH, CHR ''f''],
       Status_path [CHR ''d'', BSLASH, CHR ''x'', BSLASH, CHR ''f'', BSLASH],
       Status_prefix [CHR ''d'', BSLASH, CHR ''y''], Listdir [CHR ''d'', BSLASH, CHR ''y'']]"
  let ?cG = "[Status_prefix ''d'', Listdir ''d'',
       Status_entry [CHR ''d'', BSLASH, CHR ''x''], Status_entry [CHR ''d'', BSLASH, CHR ''y''],
       Status_path [CHR ''d'', BSLASH, CHR ''x'', BSLASH, CHR ''g''],
       Status_path [CHR ''d'', BSLASH, CHR ''y'', BSLASH, CHR ''g'']]"
  have h1: "fst (glob example_glob_nomatch ''*'') = GLOB_NOMATCH example_glob_nomatch"
    by (simp add: example_glob_nomatch_def)
  have h2: "fst (glob example_glob_aborted ''*'') \<noteq> GLOB_NOMATCH example_glob_aborted \<and>
            fst (glob example_glob_aborted ''*'') \<noteq> 0"
    by (simp add: example_glob_aborted_def)
  have h3: "\<not> has_glob Win32 ''n'' \<and> file_status example_fs ''n'' = FN_NOENT"
    by code_simp
  have h4: "\<not> has_glob Win32 [] \<and> file_status example_fs [] = FN_ERROR"
    by code_simp
  have h5: "glob_fragment_loop ?q 0 False (- 1) (- 1) = (True, 5, 6) \<and>
            unglob_win32 example_fs ?q 5 6 = Some [] \<and>
            (\<forall>path\<in>set []. tor_glob_win32 0 example_fs
                (path @ PATH_SEPARATOR Win32 @ drop (nat (6 + 1)) ?q) = Returns (Some []))"
    by code_simp
  have runP: "tor_glob_win32_io (Suc 2) example_fs ?P = (Returns None, ?cP)"
    by code_simp
  have runG: "tor_glob_win32_io (Suc 2) example_fs ?G = (Returns (Some []), ?cG)"
    by code_simp
  have lastP: "(\<exists>c\<in>set ?cP. failed_call example_fs c) \<longleftrightarrow>
               failed_call example_fs (Listdir [CHR ''d'', BSLASH, CHR ''y''])"
    by code_simp
  have sG: "(\<forall>q\<in>set (status_paths ?cG). file_status example_fs q = FN_NOENT)"
    by code_simp
  have sG': "file_status example_fs [CHR ''d'', BSLASH, CHR ''x'', BSLASH, CHR ''g''] = FN_NOENT \<and>
             file_status example_fs [CHR ''d'', BSLASH, CHR ''y'', BSLASH, CHR ''g''] = FN_NOENT"
    by code_simp
  have a: "tor_glob_native example_glob_nomatch ''*'' = Some []"
    using glob_no_match_is_not_failure [of example_glob_nomatch "''*''" 0 example_fs "[]"] h1
    by blast
  have b: "tor_glob_native example_glob_aborted ''*'' = None"
    using glob_no_match_is_not_failure [of example_glob_aborted "''*''" 0 example_fs "[]"] h2
    by blast
  have c: "tor_glob_win32 (Suc 0) example_fs ''n'' = Returns (Some [])"
    using glob_no_match_is_not_failure [of example_glob_nomatch "''*''" 0 example_fs "''n''"] h3
    by blast
  have d: "tor_glob_win32 (Suc 0) example_fs [] = Returns None"
    using glob_no_match_is_not_failure [of example_glob_nomatch "''*''" 0 example_fs "[]"] h4
    by blast
  have e: "tor_glob_win32 (Suc 0) example_fs ?q = Returns (Some [])"
    using glob_no_match_is_not_failure [of example_glob_nomatch "''*''" 0 example_fs ?q] h5
    by blast
  have f: "\<exists>r calls. tor_glob_win32_io (Suc (glob_count ?P)) example_fs ?P = (Returns r, calls)"
    using glob_no_match_is_not_failure [of example_glob_nomatch "''*''" 0 example_fs ?P]
      example_fs_names
    by blast
  have f': "tor_glob_win32 (Suc (glob_count ?P)) example_fs ?P \<noteq> OutOfFuel"
  proof -
    from f obtain r calls where
      io: "tor_glob_win32_io (Suc (glob_count ?P)) example_fs ?P = (Returns r, calls)" by blast
    have "tor_glob_win32 (Suc (glob_count ?P)) example_fs ?P = Returns r"
      unfolding tor_glob_win32_io_fst [symmetric] io by (rule fst_conv)
    then show ?thesis by (simp only: fuelled.distinct not_False_eq_True)
  qed
  note tP = glob_no_match_is_not_failure
    [of example_glob_nomatch "''*''" "Suc 2" example_fs ?P,
     THEN conjunct2, THEN conjunct2, THEN conjunct2, THEN conjunct1, rule_format, of None ?cP]
  note tG = glob_no_match_is_not_failure
    [of example_glob_nomatch "''*''" "Suc 2" example_fs ?G,
     THEN conjunct2, THEN conjunct2, THEN conjunct2, THEN conjunct1, rule_format, of "Some []" ?cG]
  have preP: "tor_glob_win32_io (Suc 2) example_fs ?P = (Returns None, ?cP) \<or>
              tor_glob_windows_io (Suc 2) example_fs ?P = (Returns None, ?cP)"
    using runP by (rule disjI1)
  have preG: "tor_glob_win32_io (Suc 2) example_fs ?G = (Returns (Some []), ?cG) \<or>
              tor_glob_windows_io (Suc 2) example_fs ?G = (Returns (Some []), ?cG)"
    using runG by (rule disjI1)
  have fl: "failed_call example_fs (Listdir [CHR ''d'', BSLASH, CHR ''y''])"
  proof -
    have "\<exists>c\<in>set ?cP. failed_call example_fs c"
      by (rule tP [OF preP, THEN conjunct1, THEN iffD1, OF refl])
    with lastP show ?thesis by (rule iffD1)
  qed
  have gl: "found_paths example_fs ?cG = []"
    by (rule tG [OF preG, THEN conjunct2, rule_format, OF refl, THEN conjunct1, symmetric])
  from a b runP fl runG gl sG' c d e f' show ?thesis by (simp only: simp_thms)
qed

subsection \<open>The base case without metacharacters\<close>

text \<open>
  Claim C3, as stated, says that an existing path without metacharacters yields the
  one-element list of exactly that path.  On a pattern that ends in a separator the
  element is the cleaned path: for \<open>d\<close> followed by a backslash, which names a
  directory, the result is the list of \<open>d\<close> alone.
\<close>

theorem non_glob_path_is_cleaned_counterexample:
  "\<not> has_glob Win32 [CHR ''d'', BSLASH] \<and>
   file_status example_fs [CHR ''d'', BSLASH] = FN_DIR \<and>
   tor_glob_win32 (Suc 0) example_fs [CHR ''d'', BSLASH] = Returns (Some [[CHR ''d'']]) \<and>
   [[CHR ''d'']] \<noteq> [[CHR ''d'', BSLASH]]"
  by code_simp

text \<open>
  Claim C3, amended.  For every pattern without metacharacters the function makes one
  call to its collaborators, the status query of the pattern, and the result is
  decided by the answer: \<open>FN_ERROR\<close> gives the null pointer, \<open>FN_NOENT\<close> the empty list,
  and every other status, whatever the type, the one-element list of the pattern
  passed through \<open>clean_fname_for_stat\<close>.  That is the pattern itself unless it ends
  in a separator; then its last character is removed, except when the pattern has
  one character or has three with a colon as the second.
\<close>

theorem tor_glob_win32_non_glob_base_case:
  assumes "\<not> has_glob Win32 pattern"
  shows "tor_glob_win32_io (Suc fuel) env pattern =
           (Returns (case file_status env pattern of
                       FN_ERROR \<Rightarrow> None
                     | FN_NOENT \<Rightarrow> Some []
                     | _ \<Rightarrow> Some [clean_fname_for_stat Win32 pattern]),
            [Status_path pattern]) \<and>
         tor_glob_win32 (Suc fuel) env pattern =
           Returns (case file_status env pattern of
                      FN_ERROR \<Rightarrow> None
                    | FN_NOENT \<Rightarrow> Some []
                    | _ \<Rightarrow> Some [clean_fname_for_stat Win32 pattern]) \<and>
         clean_fname_for_stat Win32 pattern =
           (if pattern \<noteq> [] \<and> is_sep Win32 (last pattern) \<and> length pattern \<noteq> 1 \<and>
               \<not> (length pattern = 3 \<and> pattern ! 1 = COLON)
            then butlast pattern else pattern)"
proof -
  have a: "tor_glob_win32_io (Suc fuel) env pattern =
           (Returns (case file_status env pattern of
                       FN_ERROR \<Rightarrow> None
                     | FN_NOENT \<Rightarrow> Some []
                     | _ \<Rightarrow> Some [clean_fname_for_stat Win32 pattern]),
            [Status_path pattern])"
    using tor_glob_win32_io_non_glob [OF assms, of fuel env]
    by (cases "file_status env pattern") simp_all
  have b: "tor_glob_win32 (Suc fuel) env pattern =
           Returns (case file_status env pattern of
                      FN_ERROR \<Rightarrow> None
                    | FN_NOENT \<Rightarrow> Some []
                    | _ \<Rightarrow> Some [clean_fname_for_stat Win32 pattern])"
    using tor_glob_win32_non_glob [OF assms, of fuel env]
    by (cases "file_status env pattern") simp_all
  from a b clean_fname_for_stat_Win32 [of pattern] show ?thesis by blast
qed

text \<open>The theorem at an existing file, at a directory named with a trailing backslash,
  at a missing path and at the empty pattern, whose status is an error.\<close>

theorem tor_glob_win32_non_glob_base_case_witness:
  "tor_glob_win32_io (Suc 0) example_fs [CHR ''d'', BSLASH, CHR ''x'', BSLASH, CHR ''f''] =
     (Returns (Some [[CHR ''d'', BSLASH, CHR ''x'', BSLASH, CHR ''f'']]),
      [Status_path [CHR ''d'', BSLASH, CHR ''x'', BSLASH, CHR ''f'']]) \<and>
   tor_glob_win32_io (Suc 0) example_fs [CHR ''d'', BSLASH] =
     (Returns (Some [[CHR ''d'']]), [Status_path [CHR ''d'', BSLASH]]) \<and>
   tor_glob_win32 (Suc 0) example_fs [CHR ''d'', BSLASH] = Returns (Some [[CHR ''d'']]) \<and>
   tor_glob_win32_io (Suc 0) example_fs [CHR ''n''] = (Returns (Some []), [Status_path [CHR ''n'']]) \<and>
   tor_glob_win32_io (Suc 0) example_fs [] = (Returns None, [Status_path []])"
proof -
  let ?f = "[CHR ''d'', BSLASH, CHR ''x'', BSLASH, CHR ''f'']"
  have h1: "\<not> has_glob Win32 ?f" by code_simp
  have s1: "file_status example_fs ?f = FN_FILE" by code_simp
  have c1: "clean_fname_for_stat Win32 ?f = ?f" by code_simp
  have h2: "\<not> has_glob Win32 [CHR ''d'', BSLASH]" by code_simp
  have s2: "file_status example_fs [CHR ''d'', BSLASH] = FN_DIR" by code_simp
  have c2: "clean_fname_for_stat Win32 [CHR ''d'', BSLASH] = [CHR ''d'']" by code_simp
  have h3: "\<not> has_glob Win32 [CHR ''n'']" by code_simp
  have s3: "file_status example_fs [CHR ''n''] = FN_NOENT" by code_simp
  have h4: "\<not> has_glob Win32 []" by code_simp
  have s4: "file_status example_fs [] = FN_ERROR" by code_simp
  show ?thesis
    using tor_glob_win32_non_glob_base_case [OF h1, of 0 example_fs]
      tor_glob_win32_non_glob_base_case [OF h2, of 0 example_fs]
      tor_glob_win32_non_glob_base_case [OF h3, of 0 example_fs]
      tor_glob_win32_non_glob_base_case [OF h4, of 0 example_fs]
    by (simp only: s1 s2 s3 s4 c1 c2 file_status_t.case simp_thms)
qed

subsection \<open>A prefix directory that cannot be enumerated\<close>

text \<open>
  Claim C4, as stated, says that a failed enumeration of the directory before the first
  glob fragment counts as zero matches.  In the code \<open>unglob_win32\<close> returns the null
  pointer then and \<open>tor_glob_win32\<close> sets \<open>error_found\<close>: for the missing directory
  \<open>n\<close> the pattern \<open>n\<close>, separator, \<open>*\<close> gives the null pointer.
\<close>

theorem missing_prefix_directory_counterexample:
  "glob_fragment_loop [CHR ''n'', BSLASH, STAR] 0 False (- 1) (- 1) = (True, 1, 2) \<and>
   file_status example_fs [CHR ''n''] = FN_NOENT \<and>
   tor_listdir example_fs [CHR ''n''] = None \<and>
   tor_glob_win32 (Suc 0) example_fs [CHR ''n'', BSLASH, STAR] = Returns None \<and>
   tor_glob_windows (Suc 0) example_fs [CHR ''n'', SLASH, STAR] = Returns None"
  by code_simp

text \<open>
  Claim C4, amended.  When the prefix before the first glob fragment is not a regular
  file and its enumeration fails, \<open>tor_glob_win32\<close> returns the null pointer, at the
  first step as at every other.  Only when the prefix is a regular file is nothing
  enumerated, and the result is then the empty list.
\<close>

theorem unglob_failure_is_glob_error:
  assumes "glob_fragment_loop pattern 0 False (- 1) (- 1) = (True, prev_sep, curr_sep)"
    and "path_until_glob = take (nat (if prev_sep < 1 then prev_sep + 1 else prev_sep)) pattern"
  shows "(\<not> is_file env (file_status env path_until_glob) \<and>
          tor_listdir env path_until_glob = None \<longrightarrow>
            tor_glob_win32 (Suc fuel) env pattern = Returns None) \<and>
         (is_file env (file_status env path_until_glob) \<longrightarrow>
            tor_glob_win32 (Suc fuel) env pattern = Returns (Some []))"
proof -
  have a: "tor_glob_win32 (Suc fuel) env pattern = Returns None"
    if "\<not> is_file env (file_status env path_until_glob)" "tor_listdir env path_until_glob = None"
  proof -
    have "unglob_win32 env pattern prev_sep curr_sep = None"
      unfolding unglob_win32_None_iff using that assms(2) by simp
    with tor_glob_win32_glob [OF assms(1), of fuel env] show ?thesis by simp
  qed
  have b: "tor_glob_win32 (Suc fuel) env pattern = Returns (Some [])"
    if "is_file env (file_status env path_until_glob)"
  proof -
    have "unglob_win32 env pattern prev_sep curr_sep = Some []"
      using that assms(2) by (intro unglob_win32_is_file) simp
    with tor_glob_win32_glob [OF assms(1), of fuel env] show ?thesis by simp
  qed
  from a b show ?thesis by blast
qed

text \<open>The theorem at a missing directory and at a prefix that is a file.\<close>

theorem unglob_failure_is_glob_error_witness:
  "tor_glob_win32 (Suc 0) example_fs [CHR ''n'', BSLASH, STAR] = Returns None \<and>
   tor_glob_win32 (Suc 0) example_fs
     [CHR ''d'', BSLASH, CHR ''x'', BSLASH, CHR ''f'', BSLASH, STAR] = Returns (Some [])"
proof -
  let ?n = "[CHR ''n'', BSLASH, STAR]"
  let ?q = "[CHR ''d'', BSLASH, CHR ''x'', BSLASH, CHR ''f'', BSLASH, STAR]"
  have s1: "glob_fragment_loop ?n 0 False (- 1) (- 1) = (True, 1, 2)" by code_simp
  have p1: "[CHR ''n''] = take (nat (if (1::int) < 1 then 1 + 1 else 1)) ?n" by simp
  have f1: "\<not> is_file example_fs (file_status example_fs [CHR ''n'']) \<and>
            tor_listdir example_fs [CHR ''n''] = None" by code_simp
  have s2: "glob_fragment_loop ?q 0 False (- 1) (- 1) = (True, 5, 6)" by code_simp
  have p2: "[CHR ''d'', BSLASH, CHR ''x'', BSLASH, CHR ''f''] =
            take (nat (if (5::int) < 1 then 5 + 1 else 5)) ?q" by simp
  have f2: "is_file example_fs (file_status example_fs [CHR ''d'', BSLASH, CHR ''x'', BSLASH, CHR ''f''])"
    by code_simp
  from unglob_failure_is_glob_error [OF s1 p1, of example_fs 0] f1
    unglob_failure_is_glob_error [OF s2 p2, of example_fs 0] f2
  show ?thesis by blast
qed

subsection \<open>Trailing separators of the matches\<close>

text \<open>
  Claim C5, as stated, says that no element of a returned list ends in a separator,
  single-separator roots apart.  The native backend strips one separator only: a match
  that the facility reports with two trailing separators keeps one.
\<close>

theorem trailing_separator_counterexample:
  "glob example_glob_match ''*'' = (0, [[CHR ''a'', SLASH, SLASH], [CHR ''b'', SLASH], [CHR ''c'']]) \<and>
   tor_glob_native example_glob_match ''*'' = Some [[CHR ''a'', SLASH], [CHR ''b''], [CHR ''c'']] \<and>
   last [CHR ''a'', SLASH] = SLASH \<and> [CHR ''a'', SLASH] \<noteq> [SLASH]"
  by code_simp

text \<open>
  Claim C5, amended.  In the native backend every element of a returned list that
  comes from a match other than the single separator is that match with exactly one
  trailing separator removed if there was one, so an element ends in a separator only
  if the facility's match ended in two.  In the manual backend every element of
  every returned list, for patterns with and without metacharacters, is a path
  without metacharacters that \<open>add_non_glob_path\<close> found to exist, passed through
  \<open>clean_fname_for_stat\<close>; the cleanup removes one trailing separator except from a path
  of one character and from one of three characters with a colon as the second, so an
  element ends in a separator only if it is such a root or the path ended in two
  separators.
\<close>

theorem match_set_separator_stripping:
  "(fst (glob genv pattern) = 0 \<and> GLOB_NOMATCH genv \<noteq> 0 \<longrightarrow>
      (\<exists>ms. tor_glob_native genv pattern = Some ms \<and>
            length ms = length (snd (glob genv pattern)) \<and>
            (\<forall>i<length ms. snd (glob genv pattern) ! i \<noteq> [SLASH] \<longrightarrow>
               ms ! i = (if snd (glob genv pattern) ! i \<noteq> [] \<and>
                            last (snd (glob genv pattern) ! i) = SLASH
                         then butlast (snd (glob genv pattern) ! i)
                         else snd (glob genv pattern) ! i)))) \<and>
   (\<forall>ms. tor_glob_native genv pattern = Some ms \<longrightarrow>
      (\<forall>m\<in>set ms. m \<noteq> [] \<and> last m = SLASH \<longrightarrow> m @ [SLASH] \<in> set (snd (glob genv pattern)))) \<and>
   (\<forall>ms calls. tor_glob_win32_io fuel env wpattern = (Returns (Some ms), calls) \<longrightarrow>
      ms = found_paths env calls \<and> (\<forall>q\<in>set (status_paths calls). \<not> has_glob Win32 q)) \<and>
   (\<forall>ms. tor_glob_win32 fuel env wpattern = Returns (Some ms) \<or>
         tor_glob_windows fuel env wpattern = Returns (Some ms) \<longrightarrow>
      (\<forall>m\<in>set ms. \<exists>q. \<not> has_glob Win32 q \<and> file_status env q \<noteq> FN_ERROR \<and>
          file_status env q \<noteq> FN_NOENT \<and> m = clean_fname_for_stat Win32 q)) \<and>
   clean_fname_for_stat Win32 name =
     (if name \<noteq> [] \<and> is_sep Win32 (last name) \<and> length name \<noteq> 1 \<and>
         \<not> (length name = 3 \<and> name ! 1 = COLON)
      then butlast name else name) \<and>
   (clean_fname_for_stat Win32 name \<noteq> [] \<and> is_sep Win32 (last (clean_fname_for_stat Win32 name)) \<longrightarrow>
      length (clean_fname_for_stat Win32 name) = 1 \<or>
      (length (clean_fname_for_stat Win32 name) = 3 \<and> clean_fname_for_stat Win32 name ! 1 = COLON) \<or>
      (\<exists>c. is_sep Win32 c \<and> name = clean_fname_for_stat Win32 name @ [c]))"
proof -
  obtain ret pathv where g: "glob genv pattern = (ret, pathv)" by (cases "glob genv pattern")
  have n1: "\<exists>ms. tor_glob_native genv pattern = Some ms \<and>
            length ms = length (snd (glob genv pattern)) \<and>
            (\<forall>i<length ms. snd (glob genv pattern) ! i \<noteq> [SLASH] \<longrightarrow>
               ms ! i = (if snd (glob genv pattern) ! i \<noteq> [] \<and>
                            last (snd (glob genv pattern) ! i) = SLASH
                         then butlast (snd (glob genv pattern) ! i)
                         else snd (glob genv pattern) ! i))"
    if "fst (glob genv pattern) = 0 \<and> GLOB_NOMATCH genv \<noteq> 0"
  proof (intro exI [of _ "map strip_match pathv"] conjI allI impI)
    show "tor_glob_native genv pattern = Some (map strip_match pathv)"
      using g that by (auto simp: tor_glob_native_def)
    show "length (map strip_match pathv) = length (snd (glob genv pattern))"
      using g by simp
    fix i assume "i < length (map strip_match pathv)"
    then show "map strip_match pathv ! i =
        (if snd (glob genv pattern) ! i \<noteq> [] \<and> last (snd (glob genv pattern) ! i) = SLASH
         then butlast (snd (glob genv pattern) ! i) else snd (glob genv pattern) ! i)"
      using g by (simp add: strip_match_eq)
  qed
  have n2: "m @ [SLASH] \<in> set (snd (glob genv pattern))"
    if "tor_glob_native genv pattern = Some ms" "m \<in> set ms" "m \<noteq> []" "last m = SLASH" for ms m
  proof -
    from that(1,2) g have "m \<in> set (map strip_match pathv)"
      by (auto simp: tor_glob_native_def split: if_splits)
    then obtain x where x: "x \<in> set pathv" "m = strip_match x" by auto
    have "x = m @ [SLASH]"
    proof (cases "x \<noteq> [] \<and> last x = SLASH")
      case True
      with x(2) have "m = butlast x" by (simp add: strip_match_eq)
      with True show ?thesis by (metis append_butlast_last_id)
    next
      case False
      with x(2) have "m = x" by (simp add: strip_match_eq)
      with False that(3,4) show ?thesis by simp
    qed
    with x(1) g show ?thesis by simp
  qed
  have m1: "ms = found_paths env calls \<and> (\<forall>q\<in>set (status_paths calls). \<not> has_glob Win32 q)"
    if "tor_glob_win32_io fuel env wpattern = (Returns (Some ms), calls)" for ms calls
    using tor_glob_win32_io_trace [OF that] tor_glob_win32_io_status_paths [OF that] by simp
  have m2: "\<exists>q. \<not> has_glob Win32 q \<and> file_status env q \<noteq> FN_ERROR \<and>
          file_status env q \<noteq> FN_NOENT \<and> m = clean_fname_for_stat Win32 q"
    if "tor_glob_win32 fuel env wpattern = Returns (Some ms) \<or>
        tor_glob_windows fuel env wpattern = Returns (Some ms)" "m \<in> set ms" for ms m
    using that tor_glob_win32_result_elements
    unfolding tor_glob_windows_def Let_def by blast
  have c2: "length (clean_fname_for_stat Win32 name) = 1 \<or>
      (length (clean_fname_for_stat Win32 name) = 3 \<and> clean_fname_for_stat Win32 name ! 1 = COLON) \<or>
      (\<exists>c. is_sep Win32 c \<and> name = clean_fname_for_stat Win32 name @ [c])"
    if "clean_fname_for_stat Win32 name \<noteq> [] \<and>
        is_sep Win32 (last (clean_fname_for_stat Win32 name))"
    using clean_trailing_separator [OF refl, of name] that by blast
  from n1 n2 m1 m2 c2 clean_fname_for_stat_Win32 [of name] show ?thesis by blast
qed


text \<open>The theorem on the example facility and on a glob pattern whose candidates are
  queried with a trailing backslash.\<close>

theorem match_set_separator_stripping_witness:
  "tor_glob_native example_glob_match ''*'' = Some [[CHR ''a'', SLASH], [CHR ''b''], [CHR ''c'']] \<and>
   [CHR ''a'', SLASH] @ [SLASH] \<in> set (snd (glob example_glob_match ''*'')) \<and>
   tor_glob_win32_io (Suc 1) example_fs [CHR ''d'', BSLASH, QMARK] =
     (Returns (Some [[CHR ''d'', BSLASH, CHR ''x''], [CHR ''d'', BSLASH, CHR ''y'']]),
      [Status_prefix ''d'', Listdir ''d'',
       Status_entry [CHR ''d'', BSLASH, CHR ''x''], Status_entry [CHR ''d'', BSLASH, CHR ''y''],
       Status_path [CHR ''d'', BSLASH, CHR ''x'', BSLASH],
       Status_path [CHR ''d'', BSLASH, CHR ''y'', BSLASH]]) \<and>
   found_paths example_fs
     [Status_prefix ''d'', Listdir ''d'',
       Status_entry [CHR ''d'', BSLASH, CHR ''x''], Status_entry [CHR ''d'', BSLASH, CHR ''y''],
       Status_path [CHR ''d'', BSLASH, CHR ''x'', BSLASH],
       Status_path [CHR ''d'', BSLASH, CHR ''y'', BSLASH]] =
     [[CHR ''d'', BSLASH, CHR ''x''], [CHR ''d'', BSLASH, CHR ''y'']] \<and>
   clean_fname_for_stat Win32 [CHR ''d'', BSLASH, CHR ''x'', BSLASH] = [CHR ''d'', BSLASH, CHR ''x'']"
proof -
  let ?calls = "[Status_prefix ''d'', Listdir ''d'',
       Status_entry [CHR ''d'', BSLASH, CHR ''x''], Status_entry [CHR ''d'', BSLASH, CHR ''y''],
       Status_path [CHR ''d'', BSLASH, CHR ''x'', BSLASH],
       Status_path [CHR ''d'', BSLASH, CHR ''y'', BSLASH]]"
  let ?ms = "[[CHR ''d'', BSLASH, CHR ''x''], [CHR ''d'', BSLASH, CHR ''y'']]"
  have h1: "fst (glob example_glob_match ''*'') = 0 \<and> GLOB_NOMATCH example_glob_match \<noteq> 0"
    by (simp add: example_glob_match_def)
  have native: "tor_glob_native example_glob_match ''*'' =
      Some [[CHR ''a'', SLASH], [CHR ''b''], [CHR ''c'']]"
    by code_simp
  have two: "[CHR ''a'', SLASH] \<in> set [[CHR ''a'', SLASH], [CHR ''b''], [CHR ''c'']] \<and>
             [CHR ''a'', SLASH] \<noteq> [] \<and> last [CHR ''a'', SLASH] = SLASH"
    by simp
  have run: "tor_glob_win32_io (Suc 1) example_fs [CHR ''d'', BSLASH, QMARK] =
      (Returns (Some ?ms), ?calls)"
    by code_simp
  have cl: "clean_fname_for_stat Win32 [CHR ''d'', BSLASH, CHR ''x'', BSLASH] =
      [CHR ''d'', BSLASH, CHR ''x'']"
    by code_simp
  note t = match_set_separator_stripping
    [of example_glob_match "''*''" "Suc 1" example_fs "[CHR ''d'', BSLASH, QMARK]"
        "[CHR ''d'', BSLASH, CHR ''x'', BSLASH]"]
  from t native two
  have a: "[CHR ''a'', SLASH] @ [SLASH] \<in> set (snd (glob example_glob_match ''*''))"
    by blast
  from t run have b: "?ms = found_paths example_fs ?calls" by blast
  from native a run b cl show ?thesis by simp
qed

end
